theory Spec2Isabelle
  imports Main "HOL-Library.Word"
begin

unbundle bit_operations_syntax

section \<open>Basic types\<close>

type_synonym byte = "8 word"
type_synonym valtype = "byte list"

section \<open>The condition stack (interpreter.cpp, class ConditionStack)\<close>

text \<open>
  The class stores two \<open>uint32_t\<close> fields: the size of the implied stack and the
  position of the first false value, \<open>NO_FALSE\<close> (the largest \<open>uint32_t\<close>) when there
  is none. The arithmetic is that of \<open>uint32_t\<close>: it wraps.
\<close>

record ConditionStack =
  m_stack_size :: "32 word"
  m_first_false_pos :: "32 word"

definition NO_FALSE :: "32 word" where
  "NO_FALSE = 0xFFFFFFFF"

definition cs_new :: ConditionStack where
  "cs_new = \<lparr>m_stack_size = 0, m_first_false_pos = NO_FALSE\<rparr>"

definition cs_empty :: "ConditionStack \<Rightarrow> bool" where
  "cs_empty c = (m_stack_size c = 0)"

definition all_true :: "ConditionStack \<Rightarrow> bool" where
  "all_true c = (m_first_false_pos c = NO_FALSE)"

definition push_back :: "bool \<Rightarrow> ConditionStack \<Rightarrow> ConditionStack" where
  "push_back f c =
     (let c1 = (if m_first_false_pos c = NO_FALSE \<and> \<not> f
                then c\<lparr>m_first_false_pos := m_stack_size c\<rparr> else c)
      in c1\<lparr>m_stack_size := m_stack_size c1 + 1\<rparr>)"

definition pop_back :: "ConditionStack \<Rightarrow> ConditionStack" where
  "pop_back c =
     (let c1 = c\<lparr>m_stack_size := m_stack_size c - 1\<rparr>
      in if m_first_false_pos c1 = m_stack_size c1
         then c1\<lparr>m_first_false_pos := NO_FALSE\<rparr> else c1)"

definition toggle_top :: "ConditionStack \<Rightarrow> ConditionStack" where
  "toggle_top c =
     (if m_first_false_pos c = NO_FALSE
      then c\<lparr>m_first_false_pos := m_stack_size c - 1\<rparr>
      else if m_first_false_pos c = m_stack_size c - 1
      then c\<lparr>m_first_false_pos := NO_FALSE\<rparr>
      else c)"

text \<open>The operations a script can drive, and a run of a sequence of them.\<close>

datatype cs_op = PushBack bool | PopBack | ToggleTop

fun cs_step :: "cs_op \<Rightarrow> ConditionStack \<Rightarrow> ConditionStack" where
  "cs_step (PushBack f) c = push_back f c"
| "cs_step PopBack c = pop_back c"
| "cs_step ToggleTop c = toggle_top c"

fun cs_run :: "cs_op list \<Rightarrow> ConditionStack \<Rightarrow> ConditionStack" where
  "cs_run [] c = c"
| "cs_run (p # ps) c = cs_run ps (cs_step p c)"

text \<open>
  The naive condition stack of the specification: a materialised list of booleans, the
  bottom first and the top last.
\<close>

fun naive_step :: "cs_op \<Rightarrow> bool list \<Rightarrow> bool list" where
  "naive_step (PushBack f) xs = xs @ [f]"
| "naive_step PopBack xs = butlast xs"
| "naive_step ToggleTop xs = butlast xs @ [\<not> last xs]"

fun naive_run :: "cs_op list \<Rightarrow> bool list \<Rightarrow> bool list" where
  "naive_run [] xs = xs"
| "naive_run (p # ps) xs = naive_run ps (naive_step p xs)"

definition naive_empty :: "bool list \<Rightarrow> bool" where
  "naive_empty xs = (xs = [])"

definition naive_all_true :: "bool list \<Rightarrow> bool" where
  "naive_all_true xs = list_all (\<lambda>b. b) xs"

text \<open>
  A sequence is admissible from a naive stack when \<open>pop_back\<close> and \<open>toggle_top\<close> are
  only applied to a non-empty stack.
\<close>

fun admissible :: "cs_op list \<Rightarrow> bool list \<Rightarrow> bool" where
  "admissible [] xs = True"
| "admissible (PushBack f # ps) xs = admissible ps (xs @ [f])"
| "admissible (p # ps) xs = (xs \<noteq> [] \<and> admissible ps (naive_step p xs))"

text \<open>The depth of the naive stack stays at most \<open>n\<close> during the whole run.\<close>

fun depth_within :: "nat \<Rightarrow> cs_op list \<Rightarrow> bool list \<Rightarrow> bool" where
  "depth_within n [] xs = (length xs \<le> n)"
| "depth_within n (p # ps) xs = (length xs \<le> n \<and> depth_within n ps (naive_step p xs))"

text \<open>
  The condition stack \<open>vfExec\<close> is a local variable of \<open>EvalScript\<close>, which refuses a
  script of more than \<open>MAX_SCRIPT_SIZE\<close> bytes (script.h) and applies at most one
  operation to \<open>vfExec\<close> per opcode read: one run drives at most \<open>MAX_SCRIPT_SIZE\<close>
  operations.
\<close>

definition MAX_SCRIPT_SIZE :: nat where
  "MAX_SCRIPT_SIZE = 1000000"

text \<open>The relation between the two representations.\<close>

definition cs_rel :: "ConditionStack \<Rightarrow> bool list \<Rightarrow> bool" where
  "cs_rel c xs =
     (length xs < 2 ^ 32 \<and> unat (m_stack_size c) = length xs \<and>
      (if list_all (\<lambda>b. b) xs then m_first_false_pos c = NO_FALSE
       else unat (m_first_false_pos c) = length (takeWhile (\<lambda>b. b) xs)))"


section \<open>Script numbers (serialize_number.h, big_int.cpp, script_num.cpp)\<close>

subsection \<open>Serialisation of a 64-bit integer (serialize_number.h)\<close>

definition avm_abs :: "64 word \<Rightarrow> 64 word" where
  "avm_abs num = (if sint num < 0 then - num else num)"

text \<open>
  The loop of \<open>avm::serialize\<close>, on the unsigned 64-bit \<open>absoluteValue\<close>; the bytes
  written through the output iterator are the result.
\<close>

function serialize_loop :: "bool \<Rightarrow> 64 word \<Rightarrow> byte list" where
  "serialize_loop negative absoluteValue =
     (if absoluteValue = 0 then []
      else let tmp = absoluteValue AND 0xff;
               absoluteValue' = drop_bit 8 absoluteValue
           in if absoluteValue' \<noteq> 0 then ucast tmp # serialize_loop negative absoluteValue'
              else if tmp AND 0x80 \<noteq> 0 then [ucast tmp, if negative then 0x80 else 0]
              else [if negative then ucast (tmp OR 0x80) else ucast tmp])"
  by pat_completeness auto
termination
proof (relation "measure (\<lambda>(negative, a). unat a)")
  show "wf (measure (\<lambda>(negative, a :: 64 word). unat a))" by simp
next
  fix negative :: bool and absoluteValue x xa :: "64 word"
  assume nz: "absoluteValue \<noteq> 0" and xa: "xa = drop_bit 8 absoluteValue"
  have "unat absoluteValue \<noteq> 0" using nz by (simp add: unat_eq_zero)
  then have "unat absoluteValue div 256 < unat absoluteValue" by simp
  moreover have "unat (drop_bit 8 absoluteValue) = unat absoluteValue div 2 ^ 8"
    using unat_drop_bit_eq [of 8 absoluteValue] drop_bit_eq_div [of 8 "unat absoluteValue"]
    by (rule trans)
  ultimately have "unat (drop_bit 8 absoluteValue) < unat absoluteValue"
    by simp
  then show "((negative, xa), (negative, absoluteValue)) \<in> measure (\<lambda>(negative, a). unat a)"
    using xa by simp
qed

definition serialize_int64 :: "64 word \<Rightarrow> byte list" where
  "serialize_int64 v = (if v = 0 then [] else serialize_loop (sint v < 0) (avm_abs v))"

definition IsMinimallyEncoded :: "byte list \<Rightarrow> nat \<Rightarrow> bool" where
  "IsMinimallyEncoded span nMaxNumSize =
     (let size = length span
      in if size > nMaxNumSize then False
         else if size > 0 \<and> (last span AND 0x7f) = 0 \<and>
                 (size \<le> 1 \<or> (span ! (size - 2)) AND 0x80 = 0) then False
         else True)"

subsection \<open>Big integers (big_int.cpp)\<close>

text \<open>
  Modelled from the spec: the big numbers of \<open>avm::bigint\<close> are OpenSSL's \<open>BIGNUM\<close>,
  which is not under src/. A big number is an integer of arbitrary size (specification,
  section 3). \<open>BN_bn2bin\<close> gives the magnitude in big-endian bytes with no leading
  zero byte, \<open>BN_bin2bn\<close> reads such bytes; \<open>BN_bn2mpi\<close> and \<open>BN_mpi2bn\<close> use the MPI
  format: a 4-byte big-endian length, then the big-endian magnitude, the highest bit of
  its first byte being the sign (a zero byte is put in front when the magnitude itself
  has that bit set). \<open>BN_mpi2bn\<close> gives \<open>None\<close> (the null pointer) when the length
  field is not the length of the rest.
\<close>

type_synonym bigint = int

function le_bytes :: "nat \<Rightarrow> byte list" where
  "le_bytes n = (if n = 0 then [] else of_nat (n mod 256) # le_bytes (n div 256))"
  by pat_completeness auto
termination
  by (relation "measure (\<lambda>n. n)") auto

definition BN_bn2bin :: "bigint \<Rightarrow> byte list" where
  "BN_bn2bin a = rev (le_bytes (nat \<bar>a\<bar>))"

definition BN_bin2bn :: "byte list \<Rightarrow> nat" where
  "BN_bin2bn s = foldl (\<lambda>acc b. 256 * acc + unat b) 0 s"

definition be32 :: "nat \<Rightarrow> byte list" where
  "be32 l = [of_nat (l div 16777216), of_nat (l div 65536), of_nat (l div 256), of_nat l]"

definition read_be32 :: "byte list \<Rightarrow> nat" where
  "read_be32 d = 16777216 * unat (d ! 0) + 65536 * unat (d ! 1) + 256 * unat (d ! 2)
                 + unat (d ! 3)"

definition BN_bn2mpi :: "bigint \<Rightarrow> byte list" where
  "BN_bn2mpi a =
     (let mag = BN_bn2bin a;
          body = (if mag \<noteq> [] \<and> hd mag AND 0x80 \<noteq> 0 then 0 # mag else mag);
          body' = (if a < 0 then (hd body OR 0x80) # tl body else body)
      in be32 (length body') @ body')"

definition BN_mpi2bn :: "byte list \<Rightarrow> bigint option" where
  "BN_mpi2bn d =
     (if length d < 4 then None
      else let len = read_be32 d; body = drop 4 d
           in if len + 4 \<noteq> length d then None
              else if len = 0 then Some 0
              else if hd body AND 0x80 \<noteq> 0
                   then Some (- int (BN_bin2bn ((hd body AND 0x7f) # tl body)))
                   else Some (int (BN_bin2bn body)))"

text \<open>\<open>bigint::serialize\<close> and \<open>bigint::deserialize\<close>, as big_int.cpp writes them.\<close>

definition bigint_serialize :: "bigint \<Rightarrow> byte list" where
  "bigint_serialize a = rev (drop 4 (BN_bn2mpi a))"

definition bigint_deserialize :: "byte list \<Rightarrow> bigint option" where
  "bigint_deserialize s = BN_mpi2bn (be32 (length s) @ rev s)"

subsection \<open>CScriptNum (script_num.h, script_num.cpp)\<close>

datatype CScriptNum = Small "64 word" | Big bigint

datatype scriptnum_exception =
  ScriptnumOverflowException | ScriptnumMinimalEncodingException | NullBigNumber

definition MAXIMUM_ITEM_SIZE :: nat where
  "MAXIMUM_ITEM_SIZE = 100000"

definition CScriptNum_of_span :: "byte list \<Rightarrow> nat \<Rightarrow> scriptnum_exception + CScriptNum" where
  "CScriptNum_of_span span nMaxNumSize =
     (if length span > nMaxNumSize then Inl ScriptnumOverflowException
      else if \<not> IsMinimallyEncoded span nMaxNumSize then Inl ScriptnumMinimalEncodingException
      else if span = [] then Inr (Big 0)
      else (case bigint_deserialize span of
              Some b \<Rightarrow> Inr (Big b)
            | None \<Rightarrow> Inl NullBigNumber))"

definition getvch :: "CScriptNum \<Rightarrow> byte list" where
  "getvch n = (case n of Big b \<Rightarrow> bigint_serialize b | Small v \<Rightarrow> serialize_int64 v)"


text \<open>\<open>getint\<close> saturates to the range of \<open>int\<close> (32 bits).\<close>

definition getint :: "CScriptNum \<Rightarrow> 32 word" where
  "getint n =
     (case n of
        Big b \<Rightarrow> if b > 2147483647 then 2147483647
                 else if b < - 2147483648 then - 2147483648
                 else word_of_int b
      | Small v \<Rightarrow> if sint v > 2147483647 then 2147483647
                   else if sint v < - 2147483648 then - 2147483648
                   else word_of_int (sint v))"


subsection \<open>Sign and magnitude, for the proofs\<close>

text \<open>
  The value of little-endian bytes, and the little-endian sign-and-magnitude bytes of
  a number with the magnitude \<open>m\<close>: a zero byte is added when the highest bit of the
  magnitude is set, and the sign goes to the highest bit of the last byte.
\<close>

definition le_val :: "byte list \<Rightarrow> nat" where
  "le_val xs = foldr (\<lambda>b acc. unat b + 256 * acc) xs 0"

definition sign_magnitude :: "bool \<Rightarrow> nat \<Rightarrow> byte list" where
  "sign_magnitude negative m =
     (let L = le_bytes m;
          L' = (if L \<noteq> [] \<and> last L AND 0x80 \<noteq> 0 then L @ [0] else L)
      in if negative then butlast L' @ [last L' OR 0x80] else L')"


section \<open>Script errors (script_error.h)\<close>

text \<open>
  The enumerators of \<open>ScriptError\<close> that the functions modelled here can produce
  (the enumeration of the source has more, none of them reachable from these paths).
\<close>

datatype ScriptError =
    OK | UNKNOWN | EVAL_FALSE
  | INVALID_STACK_OPERATION
  | SIG_PUSHONLY | CLEANSTACK
  | CONTEXT_NOT_PRESENT
  | INVALID_ATOMICAL_REF_SIZE | INVALID_AVM_STATE_KEY_NOT_FOUND | INVALID_AVM_WITHDRAW_FT_AMOUNT
  | INVALID_AVM_WITHDRAW_FT | INVALID_AVM_WITHDRAW_FT_OUTPUT_INDEX | INVALID_AVM_WITHDRAW_NFT
  | INVALID_AVM_WITHDRAW_NFT_OUTPUT_INDEX | INVALID_AVM_STATE_KEY_SIZE
  | INVALID_AVM_CHECKAUTHSIG | INVALID_AVM_CHECKAUTHSIGVERIFY | INVALID_AVM_CHECKAUTHSIGNULL
  | SCRIPT_ERR_BIG_INT

section \<open>Scripts (script.h, script.cpp)\<close>

text \<open>
  A script is its byte string. An iterator \<open>pc\<close> into a script is modelled by the bytes
  from \<open>pc\<close> to \<open>end()\<close>.
\<close>

type_synonym CScript = "byte list"

definition OP_PUSHDATA1 :: byte where "OP_PUSHDATA1 = 0x4c"
definition OP_PUSHDATA2 :: byte where "OP_PUSHDATA2 = 0x4d"
definition OP_PUSHDATA4 :: byte where "OP_PUSHDATA4 = 0x4e"
definition OP_16 :: byte where "OP_16 = 0x60"
definition OP_RETURN :: byte where "OP_RETURN = 0x6a"

definition ReadLE16 :: "byte list \<Rightarrow> nat" where
  "ReadLE16 p = unat (p ! 0) + 256 * unat (p ! 1)"

definition ReadLE32 :: "byte list \<Rightarrow> nat" where
  "ReadLE32 p = unat (p ! 0) + 256 * unat (p ! 1) + 65536 * unat (p ! 2)
                 + 16777216 * unat (p ! 3)"

text \<open>
  \<open>GetScriptOp\<close>: \<open>None\<close> is the C++ \<open>false\<close>; \<open>Some (opcode, data, pc')\<close> gives the
  opcode, the pushed data and the advanced iterator.
\<close>

definition read_push ::
  "byte \<Rightarrow> nat \<Rightarrow> byte list \<Rightarrow> (byte \<times> byte list \<times> byte list) option" where
  "read_push opcode nSize pc =
     (if length pc < nSize then None else Some (opcode, take nSize pc, drop nSize pc))"

definition GetScriptOp :: "byte list \<Rightarrow> (byte \<times> byte list \<times> byte list) option" where
  "GetScriptOp pc0 =
     (case pc0 of
        [] \<Rightarrow> None
      | opcode # pc \<Rightarrow>
          if opcode \<le> OP_PUSHDATA4 then
            (if opcode < OP_PUSHDATA1 then read_push opcode (unat opcode) pc
             else if opcode = OP_PUSHDATA1 then
               (case pc of [] \<Rightarrow> None | n # pc' \<Rightarrow> read_push opcode (unat n) pc')
             else if opcode = OP_PUSHDATA2 then
               (if length pc < 2 then None else read_push opcode (ReadLE16 pc) (drop 2 pc))
             else
               (if length pc < 4 then None else read_push opcode (ReadLE32 pc) (drop 4 pc)))
          else Some (opcode, [], pc))"

function IsPushOnly :: "byte list \<Rightarrow> bool" where
  "IsPushOnly pc =
     (if pc = [] then True
      else case GetScriptOp pc of
             None \<Rightarrow> False
           | Some (opcode, d, pc') \<Rightarrow> if opcode > OP_16 then False else IsPushOnly pc')"
  by pat_completeness auto
termination
proof (relation "measure length")
  show "wf (measure length)" by simp
next
  fix pc :: "byte list" and x2 opcode y d pc'
  assume "pc \<noteq> []" and "GetScriptOp pc = Some x2" and "(opcode, y) = x2" and "(d, pc') = y"
  then have "GetScriptOp pc = Some (opcode, d, pc')" by simp
  then have "length pc' < length pc"
    by (auto simp: GetScriptOp_def read_push_def split: list.splits if_splits)
  then show "(pc', pc) \<in> measure length" by simp
qed

definition IsUnspendable :: "CScript \<Rightarrow> bool" where
  "IsUnspendable s = (length s > 0 \<and> s ! 0 = OP_RETURN)"

text \<open>
  \<open>IsSigOpReturn\<close> dereferences \<open>begin() + 1\<close> to \<open>begin() + 4\<close>. A script owns the
  bytes \<open>0\<close> to \<open>size() - 1\<close> only, so a read is modelled with its bound: reading at an
  index that is not below the size is the result \<open>Inl ReadPastEnd\<close>. The conjunction
  \<open>&&\<close> of the source evaluates from the left and stops at the first false operand.
  On success the function returns \<open>Inr (Some sig)\<close>, and \<open>Inr None\<close> is its
  \<open>false\<close>.
\<close>

datatype mem_fault = ReadPastEnd

definition deref :: "CScript \<Rightarrow> nat \<Rightarrow> mem_fault + byte" where
  "deref s i = (if i < length s then Inr (s ! i) else Inl ReadPastEnd)"

definition and_then ::
  "mem_fault + bool \<Rightarrow> mem_fault + bool \<Rightarrow> mem_fault + bool" where
  "and_then a b = (case a of Inl f \<Rightarrow> Inl f | Inr False \<Rightarrow> Inr False | Inr True \<Rightarrow> b)"

definition byte_is :: "CScript \<Rightarrow> nat \<Rightarrow> byte \<Rightarrow> mem_fault + bool" where
  "byte_is s i v = (case deref s i of Inl f \<Rightarrow> Inl f | Inr b \<Rightarrow> Inr (b = v))"

definition hasSigMarker :: "CScript \<Rightarrow> mem_fault + bool" where
  "hasSigMarker s =
     and_then (byte_is s 1 0x03)
       (and_then (byte_is s 2 0x73) (and_then (byte_is s 3 0x69) (byte_is s 4 0x67)))"

definition IsSigOpReturn :: "CScript \<Rightarrow> mem_fault + valtype option" where
  "IsSigOpReturn s =
     (if \<not> IsUnspendable s then Inr None
      else case hasSigMarker s of
             Inl f \<Rightarrow> Inl f
           | Inr False \<Rightarrow> Inr None
           | Inr True \<Rightarrow>
               (case GetScriptOp (drop 5 s) of
                  Some (opcode, item, pc') \<Rightarrow>
                    if opcode > OP_PUSHDATA4 then Inr None else Inr (Some item)
                | None \<Rightarrow> Inr None))"

section \<open>The verifier's stack verdict (interpreter.cpp)\<close>

fun CastToBool :: "valtype \<Rightarrow> bool" where
  "CastToBool [] = False"
| "CastToBool (b # bs) =
     (if b \<noteq> 0 then (if bs = [] \<and> b = 0x80 then False else True) else CastToBool bs)"

text \<open>
  \<open>VerifyScriptAvm\<close>. The interpreter loop \<open>EvalScript\<close> is a parameter: it takes the
  state context, the stack and a script, and gives \<open>Inl\<close> the script error or \<open>Inr\<close>
  the state context and the stack it leaves. The result is \<open>Inl\<close> the script error,
  or \<open>Inr\<close> the final state context and stack when the function returns true.
\<close>

definition VerifyScriptAvm ::
  "('st \<Rightarrow> valtype list \<Rightarrow> CScript \<Rightarrow> ScriptError + 'st \<times> valtype list) \<Rightarrow>
   'st \<Rightarrow> CScript \<Rightarrow> CScript \<Rightarrow> ScriptError + 'st \<times> valtype list" where
  "VerifyScriptAvm EvalScript st scriptSig scriptPubKey =
     (if \<not> IsPushOnly scriptSig then Inl SIG_PUSHONLY
      else case EvalScript st [] scriptSig of
             Inl e \<Rightarrow> Inl e
           | Inr (st1, stack1) \<Rightarrow>
               (case EvalScript st1 stack1 scriptPubKey of
                  Inl e \<Rightarrow> Inl e
                | Inr (st2, stack) \<Rightarrow>
                    if stack = [] then Inl EVAL_FALSE
                    else if CastToBool (last stack) = False then Inl EVAL_FALSE
                    else if length stack \<noteq> 1 then Inl CLEANSTACK
                    else Inr (st2, stack)))"


section \<open>Hex strings (script_utils.h)\<close>

text \<open>
  Modelled from the spec: \<open>HexStr\<close> and \<open>ParseHex\<close> belong to util/strencodings, which
  is not under src/. The state maps are keyed by lowercase hex strings, two digits a
  byte (specification, section 3); \<open>ParseHex\<close> decodes pairs of hex digits and stops at
  the first character that is not one.
\<close>

definition hex_digit :: "nat \<Rightarrow> char" where
  "hex_digit n = ''0123456789abcdef'' ! n"

definition HexStr :: "byte list \<Rightarrow> string" where
  "HexStr bs = concat (map (\<lambda>b. [hex_digit (unat b div 16), hex_digit (unat b mod 16)]) bs)"

definition HexDigit :: "char \<Rightarrow> nat option" where
  "HexDigit c = map_of (zip ''0123456789abcdef'' [0 ..< 16] @ zip ''ABCDEF'' [10 ..< 16]) c"

fun ParseHex :: "string \<Rightarrow> byte list" where
  "ParseHex (a # b # rest) =
     (case HexDigit a of
        None \<Rightarrow> []
      | Some x \<Rightarrow> (case HexDigit b of
                     None \<Rightarrow> []
                   | Some y \<Rightarrow> of_nat (16 * x + y) # ParseHex rest))"
| "ParseHex _ = []"

definition isHexStr :: "string \<Rightarrow> bool" where
  "isHexStr s = (list_all (\<lambda>c. c \<in> set ''0123456789abcdef'') s \<and> length s mod 2 = 0
                 \<and> length s \<ge> 2)"

definition HexStrWith00Null :: "byte list \<Rightarrow> string" where
  "HexStrWith00Null v = (if length v = 0 then ''00'' else HexStr v)"

section \<open>The state context (script_execution_context.h, script_execution_context.cpp)\<close>

text \<open>
  Modelled from the spec: the type \<open>json\<close> is declared in json.hpp, which is not under
  src/. A JSON object is a list of key and value pairs in its iteration order, which is
  the insertion order (specification, sections 6 and 9): looking a key up finds its
  entry, assigning to a key replaces the value in place or adds the entry at the end,
  erasing a key removes its entry. The state maps have the shapes of section 3.
\<close>

type_synonym 'v json_object = "(string \<times> 'v) list"

definition json_find :: "string \<Rightarrow> 'v json_object \<Rightarrow> 'v option" where
  "json_find k obj = map_of obj k"

definition json_contains :: "string \<Rightarrow> 'v json_object \<Rightarrow> bool" where
  "json_contains k obj = (map_of obj k \<noteq> None)"

fun json_assign :: "string \<Rightarrow> 'v \<Rightarrow> 'v json_object \<Rightarrow> 'v json_object" where
  "json_assign k v [] = [(k, v)]"
| "json_assign k v ((k', v') # obj) =
     (if k' = k then (k, v) # obj else (k', v') # json_assign k v obj)"

definition json_erase :: "string \<Rightarrow> 'v json_object \<Rightarrow> 'v json_object" where
  "json_erase k obj = filter (\<lambda>(k', v). k' \<noteq> k) obj"

text \<open>
  A token identifier (\<open>uint288\<close>) is its 36 bytes.
  Modelled from the spec: \<open>uint288::GetHex\<close> belongs to uint256.h, which is not under
  src/; it gives the lowercase hex string that keys the token maps (the bytes are
  printed from the last to the first).
\<close>

type_synonym uint288 = "byte list"

definition GetHex :: "uint288 \<Rightarrow> string" where
  "GetHex tokenId = HexStr (rev tokenId)"

text \<open>
  The fields of \<open>ScriptStateContext\<close> (the block information table is left out: no
  function modelled here reads it). \<open>std::set\<close> is a set, \<open>std::map\<close> a map.
\<close>

record ScriptStateContext =
  ftState :: "64 word json_object"
  ftStateIncoming :: "64 word json_object"
  nftState :: "bool json_object"
  nftStateIncoming :: "bool json_object"
  contractState :: "string json_object json_object"
  contractStateUpdates :: "string json_object json_object"
  contractStateDeletes :: "bool json_object json_object"
  ftBalancesUpdates :: "64 word json_object"
  nftBalancesUpdates :: "bool json_object"
  ftAddsSet :: "uint288 set"
  nftPutsSet :: "uint288 set"
  ftWithdrawMap :: "uint288 \<rightharpoonup> (32 word \<rightharpoonup> 64 word)"
  nftWithdrawMap :: "uint288 \<rightharpoonup> 32 word"

text \<open>The constructor: the updates, the deletes and the withdraw maps start empty.\<close>

definition new_ScriptStateContext ::
  "64 word json_object \<Rightarrow> 64 word json_object \<Rightarrow> bool json_object \<Rightarrow> bool json_object \<Rightarrow>
   string json_object json_object \<Rightarrow> ScriptStateContext" where
  "new_ScriptStateContext ft ftIncoming nft nftIncoming kv =
     \<lparr>ftState = ft, ftStateIncoming = ftIncoming, nftState = nft,
      nftStateIncoming = nftIncoming, contractState = kv,
      contractStateUpdates = [], contractStateDeletes = [],
      ftBalancesUpdates = [], nftBalancesUpdates = [],
      ftAddsSet = {}, nftPutsSet = {},
      ftWithdrawMap = Map.empty, nftWithdrawMap = Map.empty\<rparr>"

text \<open>
  \<open>ensureKeyspaceExists\<close> returns a reference to the node of the keyspace; the writes
  through that reference are \<open>modify_node\<close>.
\<close>

definition ensureKeyspaceExists ::
  "'v json_object json_object \<Rightarrow> string \<Rightarrow> 'v json_object json_object" where
  "ensureKeyspaceExists entity keySpaceStr =
     (if json_find keySpaceStr entity \<noteq> None then entity
      else json_assign keySpaceStr [] entity)"

definition modify_node ::
  "string \<Rightarrow> ('v json_object \<Rightarrow> 'v json_object) \<Rightarrow> 'v json_object json_object \<Rightarrow>
   'v json_object json_object" where
  "modify_node keySpaceStr f entity =
     (case json_find keySpaceStr entity of
        None \<Rightarrow> entity
      | Some node \<Rightarrow> json_assign keySpaceStr (f node) entity)"

definition contractStatePut ::
  "valtype \<Rightarrow> valtype \<Rightarrow> valtype \<Rightarrow> ScriptStateContext \<Rightarrow> ScriptStateContext" where
  "contractStatePut keySpace keyName val s =
     (let keySpaceStr = HexStrWith00Null keySpace;
          keyNameStr = HexStrWith00Null keyName;
          valueStr = HexStrWith00Null val;
          st = ensureKeyspaceExists (contractState s) keySpaceStr;
          up = ensureKeyspaceExists (contractStateUpdates s) keySpaceStr;
          de = ensureKeyspaceExists (contractStateDeletes s) keySpaceStr
      in s\<lparr>contractState := modify_node keySpaceStr (json_assign keyNameStr valueStr) st,
           contractStateUpdates := modify_node keySpaceStr (json_assign keyNameStr valueStr) up,
           contractStateDeletes := modify_node keySpaceStr (json_erase keyNameStr) de\<rparr>)"

definition contractStateDelete ::
  "valtype \<Rightarrow> valtype \<Rightarrow> ScriptStateContext \<Rightarrow> ScriptStateContext" where
  "contractStateDelete keySpace keyName s =
     (let keySpaceStr = HexStrWith00Null keySpace;
          keyNameStr = HexStrWith00Null keyName;
          st = ensureKeyspaceExists (contractState s) keySpaceStr;
          up = ensureKeyspaceExists (contractStateUpdates s) keySpaceStr;
          de = ensureKeyspaceExists (contractStateDeletes s) keySpaceStr
      in s\<lparr>contractState := modify_node keySpaceStr (json_erase keyNameStr) st,
           contractStateUpdates := modify_node keySpaceStr (json_erase keyNameStr) up,
           contractStateDeletes := modify_node keySpaceStr (json_assign keyNameStr True) de\<rparr>)"

text \<open>
  \<open>contractStateGet\<close> appends the decoded value to the vector it is given and returns
  true (\<open>Some\<close> the vector), or returns false (\<open>None\<close>).
\<close>

definition contractStateGet ::
  "ScriptStateContext \<Rightarrow> valtype \<Rightarrow> valtype \<Rightarrow> valtype \<Rightarrow> valtype option" where
  "contractStateGet s keySpace keyName val =
     (case json_find (HexStr keySpace) (contractState s) of
        None \<Rightarrow> None
      | Some keyspaceNode \<Rightarrow>
          (case json_find (HexStr keyName) keyspaceNode of
             Some keyValue \<Rightarrow> Some (val @ ParseHex keyValue)
           | None \<Rightarrow> None))"

definition contractStateExists :: "ScriptStateContext \<Rightarrow> valtype \<Rightarrow> valtype \<Rightarrow> bool" where
  "contractStateExists s keySpace keyName =
     (case json_find (HexStr keySpace) (contractState s) of
        None \<Rightarrow> False
      | Some keyspaceNode \<Rightarrow> if json_contains (HexStr keyName) keyspaceNode then True else False)"

text \<open>
  The cleanup pass. Each loop goes through the items of the object and erases by key
  (the source erases while it iterates; the model takes the items first).
\<close>

definition cleanupKeyspaces :: "'v json_object json_object \<Rightarrow> 'v json_object json_object" where
  "cleanupKeyspaces entity =
     fold (\<lambda>(key, val) e. if val = [] then json_erase key e else e) entity entity"

definition cleanupEmptyFtTokenBalance :: "64 word json_object \<Rightarrow> 64 word json_object" where
  "cleanupEmptyFtTokenBalance entity =
     fold (\<lambda>(key, val) e. if val = 0 then json_erase key e else e) entity entity"

definition cleanupEmptyNftTokenBalance :: "bool json_object \<Rightarrow> bool json_object" where
  "cleanupEmptyNftTokenBalance entity =
     fold (\<lambda>(key, val) e. if \<not> val then json_erase key e else e) entity entity"

definition cleanupStateAndBalances :: "ScriptStateContext \<Rightarrow> ScriptStateContext" where
  "cleanupStateAndBalances s =
     s\<lparr>contractState := cleanupKeyspaces (contractState s),
       contractStateUpdates := cleanupKeyspaces (contractStateUpdates s),
       contractStateDeletes := cleanupKeyspaces (contractStateDeletes s),
       ftState := cleanupEmptyFtTokenBalance (ftState s),
       nftState := cleanupEmptyNftTokenBalance (nftState s)\<rparr>"

text \<open>The key and value operations of one execution, and a run of them.\<close>

datatype kv_op = KvPut valtype valtype valtype | KvDelete valtype valtype

fun kv_step :: "kv_op \<Rightarrow> ScriptStateContext \<Rightarrow> ScriptStateContext" where
  "kv_step (KvPut ks kn v) s = contractStatePut ks kn v s"
| "kv_step (KvDelete ks kn) s = contractStateDelete ks kn s"

fun kv_run :: "kv_op list \<Rightarrow> ScriptStateContext \<Rightarrow> ScriptStateContext" where
  "kv_run [] s = s"
| "kv_run (p # ps) s = kv_run ps (kv_step p s)"

text \<open>
  A pair of (keyspace, key), in the hex form of the maps, is present in a two-level map.
\<close>

definition kv_has :: "'v json_object json_object \<Rightarrow> string \<Rightarrow> string \<Rightarrow> bool" where
  "kv_has entity ks kn =
     (case json_find ks entity of None \<Rightarrow> False | Some node \<Rightarrow> json_contains kn node)"

text \<open>The invariant of the specification: no deleted pair is in the state or the updates.\<close>

definition kv_disjoint :: "ScriptStateContext \<Rightarrow> bool" where
  "kv_disjoint s =
     (\<forall>ks kn. kv_has (contractStateDeletes s) ks kn \<longrightarrow>
        \<not> kv_has (contractState s) ks kn \<and> \<not> kv_has (contractStateUpdates s) ks kn)"


section \<open>Transactions and the execution context (transaction.h, script_execution_context.h)\<close>

record COutPoint =
  prevout_txid :: "byte list"
  prevout_n :: "32 word"

record CTxIn =
  prevout :: COutPoint
  scriptSig :: CScript
  nSequence :: "32 word"

text \<open>The amount \<open>nValue\<close> is a signed 64-bit number of satoshis.\<close>

record CTxOut =
  nValue :: "64 word"
  scriptPubKey :: CScript

record CTransaction =
  nVersion :: "32 word"
  vin :: "CTxIn list"
  vout :: "CTxOut list"
  nLockTime :: "32 word"

record ScriptExecutionContext =
  m_tx :: CTransaction
  m_fullScript :: "byte list"
  m_pubKey :: "byte list"

section \<open>Withdrawals (script_execution_context.cpp)\<close>

text \<open>\<open>std::map::insert\<close> adds the pair only when the key is not in the map yet.\<close>

definition map_insert :: "'k \<Rightarrow> 'v \<Rightarrow> ('k \<rightharpoonup> 'v) \<Rightarrow> ('k \<rightharpoonup> 'v)" where
  "map_insert k v m = (if m k = None then m(k \<mapsto> v) else m)"

definition contractWithdrawFt ::
  "uint288 \<Rightarrow> 32 word \<Rightarrow> 64 word \<Rightarrow> ScriptStateContext \<Rightarrow> bool \<times> ScriptStateContext" where
  "contractWithdrawFt ftId index withdrawAmount s =
     (if withdrawAmount \<le> 0 then (False, s)
      else let ftIdStr = GetHex ftId
           in case json_find ftIdStr (ftState s) of
                None \<Rightarrow> (False, s)
              | Some availableBalance \<Rightarrow>
                  if withdrawAmount > availableBalance then (False, s)
                  else let updatedBalance = availableBalance - withdrawAmount;
                           s1 = (if updatedBalance = 0
                                 then s\<lparr>ftState := json_erase ftIdStr (ftState s)\<rparr>
                                 else s\<lparr>ftState := json_assign ftIdStr updatedBalance (ftState s)\<rparr>);
                           s2 = s1\<lparr>ftBalancesUpdates :=
                                     json_assign ftIdStr updatedBalance (ftBalancesUpdates s1)\<rparr>;
                           s3 = s2\<lparr>ftWithdrawMap :=
                                     map_insert ftId Map.empty (ftWithdrawMap s2)\<rparr>
                       in (True,
                           s3\<lparr>ftWithdrawMap :=
                                (case ftWithdrawMap s3 ftId of
                                   None \<Rightarrow> ftWithdrawMap s3
                                 | Some outputs \<Rightarrow>
                                     (ftWithdrawMap s3)
                                       (ftId \<mapsto> map_insert index withdrawAmount outputs))\<rparr>))"

definition contractWithdrawNft ::
  "uint288 \<Rightarrow> 32 word \<Rightarrow> ScriptStateContext \<Rightarrow> bool \<times> ScriptStateContext" where
  "contractWithdrawNft nftId index s =
     (let nftIdStr = GetHex nftId
      in if \<not> json_contains nftIdStr (nftState s) then (False, s)
         else (True,
               s\<lparr>nftState := json_erase nftIdStr (nftState s),
                 nftBalancesUpdates := json_assign nftIdStr False (nftBalancesUpdates s),
                 nftWithdrawMap := map_insert nftId index (nftWithdrawMap s)\<rparr>))"

section \<open>The withdraw and key-value opcodes (interpreter.cpp, EvalScript)\<close>

text \<open>
  One case of the switch of \<open>EvalScript\<close> takes the optional execution context, the
  stack (its top is the last element) and the state context. It gives \<open>Inr\<close> the stack
  and the state context it leaves, or \<open>Inl\<close> how it fails: with a script error, by
  a failed assertion, or by a read outside a buffer.
  Modelled from the spec: the constructor of \<open>uint288\<close> from a vector belongs to
  uint256.h, which is not under src/; a token identifier is exactly 36 bytes
  (specification, section 3), and building one from a vector of another length is a
  failed assertion.
  An exception of the \<open>CScriptNum\<close> constructor is caught by \<open>EvalScript\<close> as a
  \<open>std::exception\<close>, which gives \<open>UNKNOWN\<close>.
\<close>

datatype failure = ScriptFailure ScriptError | AssertFailure | MemoryFault

definition stacktop :: "valtype list \<Rightarrow> nat \<Rightarrow> valtype" where
  "stacktop stack i = stack ! (length stack - i)"

definition popstack :: "valtype list \<Rightarrow> valtype list" where
  "popstack stack = butlast stack"

definition maxStateKeySize :: nat where
  "maxStateKeySize = 1024"

definition op_NFT_WITHDRAW ::
  "ScriptExecutionContext option \<Rightarrow> valtype list \<Rightarrow> ScriptStateContext \<Rightarrow>
   failure + valtype list \<times> ScriptStateContext" where
  "op_NFT_WITHDRAW context stack s =
     (case context of
        None \<Rightarrow> Inl (ScriptFailure CONTEXT_NOT_PRESENT)
      | Some ctx \<Rightarrow>
          if length stack < 2 then Inl (ScriptFailure INVALID_STACK_OPERATION)
          else let vch1 = stacktop stack 2; vch2 = stacktop stack 1
               in if length vch1 \<noteq> 36 then Inl (ScriptFailure INVALID_ATOMICAL_REF_SIZE)
                  else case CScriptNum_of_span vch1 MAXIMUM_ITEM_SIZE of
                         Inl e \<Rightarrow> Inl (ScriptFailure UNKNOWN)
                       | Inr num \<Rightarrow>
                           let index = getint num
                           in if sint index < 0 \<or> unat index \<ge> length (vout (m_tx ctx))
                              then Inl (ScriptFailure INVALID_AVM_WITHDRAW_NFT_OUTPUT_INDEX)
                              else if length vch2 \<noteq> 36 then Inl AssertFailure
                              else case contractWithdrawNft vch2 index s of
                                     (False, s') \<Rightarrow> Inl (ScriptFailure INVALID_AVM_WITHDRAW_NFT)
                                   | (True, s') \<Rightarrow> Inr (popstack (popstack stack), s'))"

definition op_FT_WITHDRAW ::
  "ScriptExecutionContext option \<Rightarrow> valtype list \<Rightarrow> ScriptStateContext \<Rightarrow>
   failure + valtype list \<times> ScriptStateContext" where
  "op_FT_WITHDRAW context stack s =
     (case context of
        None \<Rightarrow> Inl (ScriptFailure CONTEXT_NOT_PRESENT)
      | Some ctx \<Rightarrow>
          if length stack < 3 then Inl (ScriptFailure INVALID_STACK_OPERATION)
          else let vch1 = stacktop stack 3; vch2 = stacktop stack 2; vch3 = stacktop stack 1
               in if length vch3 \<noteq> 36 then Inl (ScriptFailure INVALID_ATOMICAL_REF_SIZE)
                  else case CScriptNum_of_span vch2 MAXIMUM_ITEM_SIZE of
                         Inl e \<Rightarrow> Inl (ScriptFailure UNKNOWN)
                       | Inr num2 \<Rightarrow>
                           let index = getint num2
                           in if sint index < 0 \<or> unat index \<ge> length (vout (m_tx ctx))
                              then Inl (ScriptFailure INVALID_AVM_WITHDRAW_FT_OUTPUT_INDEX)
                              else let output = vout (m_tx ctx) ! unat index
                                   in case CScriptNum_of_span vch1 MAXIMUM_ITEM_SIZE of
                                        Inl e \<Rightarrow> Inl (ScriptFailure UNKNOWN)
                                      | Inr num1 \<Rightarrow>
                                          let withdrawAmount = getint num1
                                          in if sint withdrawAmount \<le> 0 \<or>
                                                sint withdrawAmount > sint (nValue output)
                                             then Inl (ScriptFailure INVALID_AVM_WITHDRAW_FT_AMOUNT)
                                             else case contractWithdrawFt vch3 index
                                                         (scast withdrawAmount) s of
                                                    (False, s') \<Rightarrow>
                                                      Inl (ScriptFailure INVALID_AVM_WITHDRAW_FT)
                                                  | (True, s') \<Rightarrow>
                                                      Inr (popstack (popstack (popstack stack)), s'))"


section \<open>Authorization (script_execution_context.h, interpreter.cpp)\<close>











definition vchTrue :: valtype where "vchTrue = [1]"



definition eval_OP_1 :: "unit \<Rightarrow> valtype list \<Rightarrow> CScript \<Rightarrow> ScriptError + unit \<times> valtype list" where
  "eval_OP_1 st stack script = Inr (st, stack @ (if script = [0x51] then [[1]] else []))"


section \<open>The state commitment (script_utils.h, atomicalsconsensus.cpp)\<close>























subsection \<open>The withdraw objects (script_execution_context.cpp)\<close>












subsection \<open>The commitment as the specification writes it\<close>

text \<open>
  The canonical serialisations of section 6 of the specification, item by item in the
  order of the items given, and the commitment
  \<open>SHA-256(prevStateHash || H(nftIncoming) || H(ftIncoming) || H(kvFinal) || H(kvUpdates)
  || H(kvDeletes) || H(nftFinal) || H(ftFinal) || H(nftUpdates) || H(ftUpdates) ||
  H(nftWithdraws) || H(ftWithdraws))\<close>. A number of \<open>k\<close> bytes is little-endian: its
  byte \<open>i\<close> has the weight \<open>256 ^ i\<close>.
\<close>

definition spec_le_bytes :: "nat \<Rightarrow> nat \<Rightarrow> byte list" where
  "spec_le_bytes k n = map (\<lambda>i. of_nat (n div 256 ^ i mod 256)) [0 ..< k]"











section \<open>Properties of the condition stack\<close>

lemma push_back_fields:
  "m_stack_size (push_back f c) = m_stack_size c + 1"
  "m_first_false_pos (push_back f c) =
     (if m_first_false_pos c = NO_FALSE \<and> \<not> f then m_stack_size c else m_first_false_pos c)"
  by (simp_all add: push_back_def Let_def)

lemma pop_back_fields:
  "m_stack_size (pop_back c) = m_stack_size c - 1"
  "m_first_false_pos (pop_back c) =
     (if m_first_false_pos c = m_stack_size c - 1 then NO_FALSE else m_first_false_pos c)"
  by (simp_all add: pop_back_def Let_def)

lemma toggle_top_fields:
  "m_stack_size (toggle_top c) = m_stack_size c"
  "m_first_false_pos (toggle_top c) =
     (if m_first_false_pos c = NO_FALSE then m_stack_size c - 1
      else if m_first_false_pos c = m_stack_size c - 1 then NO_FALSE
      else m_first_false_pos c)"
  by (simp_all add: toggle_top_def)

lemma cs_relI:
  assumes "length xs < 2 ^ 32" and "unat (m_stack_size c) = length xs"
    and "list_all (\<lambda>b. b) xs \<Longrightarrow> m_first_false_pos c = NO_FALSE"
    and "\<not> list_all (\<lambda>b. b) xs \<Longrightarrow>
         unat (m_first_false_pos c) = length (takeWhile (\<lambda>b. b) xs)"
  shows "cs_rel c xs"
  unfolding cs_rel_def using assms by (cases "list_all (\<lambda>b. b) xs") simp_all

lemma cs_rel_len: "cs_rel c xs \<Longrightarrow> length xs < 2 ^ 32"
  and cs_rel_size: "cs_rel c xs \<Longrightarrow> unat (m_stack_size c) = length xs"
  and cs_rel_all: "cs_rel c xs \<Longrightarrow> list_all (\<lambda>b. b) xs \<Longrightarrow> m_first_false_pos c = NO_FALSE"
  and cs_rel_some: "cs_rel c xs \<Longrightarrow> \<not> list_all (\<lambda>b. b) xs \<Longrightarrow>
         unat (m_first_false_pos c) = length (takeWhile (\<lambda>b. b) xs)"
  unfolding cs_rel_def by (cases "list_all (\<lambda>b. b) xs"; simp)+

lemma cs_rel_new: "cs_rel cs_new []"
  by (rule cs_relI) (simp_all add: cs_new_def)

lemma takeWhile_less_length:
  "\<not> list_all (\<lambda>b. b) xs \<Longrightarrow> length (takeWhile (\<lambda>b. b) xs) < length xs"
  by (induction xs) auto

lemma takeWhile_all_append:
  "list_all (\<lambda>b. b) ys \<Longrightarrow> takeWhile (\<lambda>b. b) (ys @ zs) = ys @ takeWhile (\<lambda>b. b) zs"
  by (induction ys) auto

lemma takeWhile_some_append:
  "\<not> list_all (\<lambda>b. b) ys \<Longrightarrow> takeWhile (\<lambda>b. b) (ys @ zs) = takeWhile (\<lambda>b. b) ys"
  by (induction ys) auto

lemma unat_NO_FALSE: "unat NO_FALSE = 4294967295"
  by (simp add: NO_FALSE_def)

lemma pos_not_NO_FALSE:
  assumes "unat (p :: 32 word) < 4294967295"
  shows "p \<noteq> NO_FALSE"
  using assms unat_NO_FALSE by auto

lemma first_false_not_NO_FALSE:
  assumes "cs_rel c xs" and "\<not> list_all (\<lambda>b. b) xs"
  shows "m_first_false_pos c \<noteq> NO_FALSE"
proof -
  have "length (takeWhile (\<lambda>b. b) xs) < length xs"
    using assms(2) by (rule takeWhile_less_length)
  moreover have "length xs < 4294967296" using cs_rel_len [OF assms(1)] by simp
  ultimately have "unat (m_first_false_pos c) < 4294967295"
    using cs_rel_some [OF assms] by linarith
  then show ?thesis by (rule pos_not_NO_FALSE)
qed

lemma unat_pred_size:
  assumes "unat (s :: 32 word) = Suc n"
  shows "unat (s - 1) = n"
proof -
  have "1 \<le> s" using assms by (simp add: word_le_nat_alt)
  then have "unat (s - 1) = unat s - 1" by (simp add: unat_sub)
  with assms show ?thesis by simp
qed

lemma unat_succ_size:
  assumes "unat (s :: 32 word) = n" and "Suc n < 4294967296"
  shows "unat (s + 1) = Suc n"
proof -
  have "unat (s + 1) = (unat s + 1) mod 4294967296"
    by (simp add: unat_word_ariths)
  with assms show ?thesis by simp
qed

lemma cs_rel_push:
  assumes rel: "cs_rel c xs" and bound: "Suc (length xs) < 4294967296"
  shows "cs_rel (push_back f c) (xs @ [f])"
proof (rule cs_relI)
  show "length (xs @ [f]) < 2 ^ 32" using bound by simp
  show "unat (m_stack_size (push_back f c)) = length (xs @ [f])"
    using unat_succ_size [OF cs_rel_size [OF rel] bound] by (simp add: push_back_fields)
  show "m_first_false_pos (push_back f c) = NO_FALSE" if "list_all (\<lambda>b. b) (xs @ [f])"
  proof -
    from that have "list_all (\<lambda>b. b) xs" and f by simp_all
    then show ?thesis using cs_rel_all [OF rel] by (simp add: push_back_fields)
  qed
  show "unat (m_first_false_pos (push_back f c)) = length (takeWhile (\<lambda>b. b) (xs @ [f]))"
    if nall: "\<not> list_all (\<lambda>b. b) (xs @ [f])"
  proof (cases "list_all (\<lambda>b. b) xs")
    case True
    with nall have nf: "\<not> f" by simp
    have "takeWhile (\<lambda>b. b) (xs @ [f]) = xs"
      using True nf by (simp add: takeWhile_all_append)
    then show ?thesis
      using cs_rel_all [OF rel True] nf cs_rel_size [OF rel] by (simp add: push_back_fields)
  next
    case False
    have "takeWhile (\<lambda>b. b) (xs @ [f]) = takeWhile (\<lambda>b. b) xs"
      using False by (rule takeWhile_some_append)
    then show ?thesis
      using first_false_not_NO_FALSE [OF rel False] cs_rel_some [OF rel False]
      by (simp add: push_back_fields)
  qed
qed

lemma cs_rel_snoc_size:
  assumes "cs_rel c (ys @ [y])"
  shows "unat (m_stack_size c - 1) = length ys"
  using cs_rel_size [OF assms] by (intro unat_pred_size) simp

lemma cs_rel_snoc_first_false:
  assumes rel: "cs_rel c (ys @ [y])"
  shows "m_first_false_pos c = m_stack_size c - 1 \<longleftrightarrow> list_all (\<lambda>b. b) ys \<and> \<not> y"
proof (cases "list_all (\<lambda>b. b) ys")
  case True
  show ?thesis
  proof (cases y)
    case True
    with \<open>list_all (\<lambda>b. b) ys\<close> have "list_all (\<lambda>b. b) (ys @ [y])" by simp
    then have "m_first_false_pos c = NO_FALSE" by (rule cs_rel_all [OF rel])
    moreover have "length ys < 4294967295" using cs_rel_len [OF rel] by simp
    then have "m_stack_size c - 1 \<noteq> NO_FALSE"
      using cs_rel_snoc_size [OF rel] by (intro pos_not_NO_FALSE) simp
    ultimately show ?thesis using True by simp
  next
    case False
    with True have n: "\<not> list_all (\<lambda>b. b) (ys @ [y])" by simp
    have "takeWhile (\<lambda>b. b) (ys @ [y]) = ys"
      using True False by (simp add: takeWhile_all_append)
    then have "unat (m_first_false_pos c) = length ys"
      using cs_rel_some [OF rel n] by simp
    then have "m_first_false_pos c = m_stack_size c - 1"
      using cs_rel_snoc_size [OF rel] by (simp add: word_unat_eq_iff)
    then show ?thesis using True False by simp
  qed
next
  case False
  then have n: "\<not> list_all (\<lambda>b. b) (ys @ [y])" by simp
  have "takeWhile (\<lambda>b. b) (ys @ [y]) = takeWhile (\<lambda>b. b) ys"
    using False by (rule takeWhile_some_append)
  then have "unat (m_first_false_pos c) = length (takeWhile (\<lambda>b. b) ys)"
    using cs_rel_some [OF rel n] by simp
  moreover have "length (takeWhile (\<lambda>b. b) ys) < length ys"
    using False by (rule takeWhile_less_length)
  ultimately have "unat (m_first_false_pos c) \<noteq> unat (m_stack_size c - 1)"
    using cs_rel_snoc_size [OF rel] by simp
  then have "m_first_false_pos c \<noteq> m_stack_size c - 1" by auto
  then show ?thesis using False by simp
qed

lemma cs_rel_pop_snoc:
  assumes rel: "cs_rel c (ys @ [y])"
  shows "cs_rel (pop_back c) ys"
proof (rule cs_relI)
  show "length ys < 2 ^ 32" using cs_rel_len [OF rel] by simp
  show "unat (m_stack_size (pop_back c)) = length ys"
    using cs_rel_snoc_size [OF rel] by (simp add: pop_back_fields)
  show "m_first_false_pos (pop_back c) = NO_FALSE" if a: "list_all (\<lambda>b. b) ys"
  proof (cases y)
    case True
    with a have "list_all (\<lambda>b. b) (ys @ [y])" by simp
    then have "m_first_false_pos c = NO_FALSE" by (rule cs_rel_all [OF rel])
    then show ?thesis by (simp add: pop_back_fields)
  next
    case False
    with a have "m_first_false_pos c = m_stack_size c - 1"
      using cs_rel_snoc_first_false [OF rel] by simp
    then show ?thesis by (simp add: pop_back_fields)
  qed
  show "unat (m_first_false_pos (pop_back c)) = length (takeWhile (\<lambda>b. b) ys)"
    if n: "\<not> list_all (\<lambda>b. b) ys"
  proof -
    from n have n': "\<not> list_all (\<lambda>b. b) (ys @ [y])" by simp
    have ne: "m_first_false_pos c \<noteq> m_stack_size c - 1"
      using cs_rel_snoc_first_false [OF rel] n by simp
    have "takeWhile (\<lambda>b. b) (ys @ [y]) = takeWhile (\<lambda>b. b) ys"
      using n by (rule takeWhile_some_append)
    then show ?thesis using cs_rel_some [OF rel n'] ne by (simp add: pop_back_fields)
  qed
qed

lemma cs_rel_toggle_snoc:
  assumes rel: "cs_rel c (ys @ [y])"
  shows "cs_rel (toggle_top c) (ys @ [\<not> y])"
proof (rule cs_relI)
  show "length (ys @ [\<not> y]) < 2 ^ 32" using cs_rel_len [OF rel] by simp
  show "unat (m_stack_size (toggle_top c)) = length (ys @ [\<not> y])"
    using cs_rel_size [OF rel] by (simp add: toggle_top_fields)
  show "m_first_false_pos (toggle_top c) = NO_FALSE" if a: "list_all (\<lambda>b. b) (ys @ [\<not> y])"
  proof -
    from a have ys: "list_all (\<lambda>b. b) ys" and ny: "\<not> y" by simp_all
    then have n: "\<not> list_all (\<lambda>b. b) (ys @ [y])" by simp
    have "m_first_false_pos c = m_stack_size c - 1"
      using cs_rel_snoc_first_false [OF rel] ys ny by simp
    moreover have "m_first_false_pos c \<noteq> NO_FALSE"
      using rel n by (rule first_false_not_NO_FALSE)
    ultimately show ?thesis by (simp add: toggle_top_fields)
  qed
  show "unat (m_first_false_pos (toggle_top c)) = length (takeWhile (\<lambda>b. b) (ys @ [\<not> y]))"
    if n: "\<not> list_all (\<lambda>b. b) (ys @ [\<not> y])"
  proof (cases "list_all (\<lambda>b. b) ys")
    case True
    with n have y: y by simp
    with True have "list_all (\<lambda>b. b) (ys @ [y])" by simp
    then have "m_first_false_pos c = NO_FALSE" by (rule cs_rel_all [OF rel])
    moreover have "takeWhile (\<lambda>b. b) (ys @ [\<not> y]) = ys"
      using True y by (simp add: takeWhile_all_append)
    ultimately show ?thesis
      using cs_rel_snoc_size [OF rel] by (simp add: toggle_top_fields)
  next
    case False
    then have n': "\<not> list_all (\<lambda>b. b) (ys @ [y])" by simp
    have ne: "m_first_false_pos c \<noteq> m_stack_size c - 1"
      using cs_rel_snoc_first_false [OF rel] False by simp
    have ne2: "m_first_false_pos c \<noteq> NO_FALSE"
      using rel n' by (rule first_false_not_NO_FALSE)
    have "takeWhile (\<lambda>b. b) (ys @ [\<not> y]) = takeWhile (\<lambda>b. b) ys"
      and "takeWhile (\<lambda>b. b) (ys @ [y]) = takeWhile (\<lambda>b. b) ys"
      using False by (rule takeWhile_some_append)+
    then show ?thesis
      using cs_rel_some [OF rel n'] ne ne2 by (simp add: toggle_top_fields)
  qed
qed

lemma cs_rel_step:
  assumes rel: "cs_rel c xs" and adm: "admissible (p # ps) xs"
    and bound: "length (naive_step p xs) < 4294967296"
  shows "cs_rel (cs_step p c) (naive_step p xs)"
proof (cases p)
  case (PushBack f)
  with bound have "Suc (length xs) < 4294967296" by simp
  with rel show ?thesis using PushBack by (simp add: cs_rel_push)
next
  case PopBack
  with adm have "xs \<noteq> []" by simp
  then obtain ys y where xs: "xs = ys @ [y]" by (cases xs rule: rev_cases) auto
  with rel show ?thesis using PopBack by (simp add: cs_rel_pop_snoc)
next
  case ToggleTop
  with adm have "xs \<noteq> []" by simp
  then obtain ys y where xs: "xs = ys @ [y]" by (cases xs rule: rev_cases) auto
  with rel show ?thesis using ToggleTop by (simp add: cs_rel_toggle_snoc)
qed

lemma depth_within_head: "depth_within n ps xs \<Longrightarrow> length xs \<le> n"
  by (cases ps) simp_all

lemma cs_rel_run:
  "cs_rel c xs \<Longrightarrow> admissible ps xs \<Longrightarrow> depth_within 4294967295 ps xs \<Longrightarrow>
   cs_rel (cs_run ps c) (naive_run ps xs)"
proof (induction ps arbitrary: c xs)
  case Nil
  then show ?case by simp
next
  case (Cons p ps)
  from Cons.prems(3) have dw: "depth_within 4294967295 ps (naive_step p xs)" by simp
  then have "length (naive_step p xs) \<le> 4294967295" by (rule depth_within_head)
  then have "length (naive_step p xs) < 4294967296" by simp
  with Cons.prems have step: "cs_rel (cs_step p c) (naive_step p xs)"
    by (intro cs_rel_step)
  have "admissible ps (naive_step p xs)"
    using Cons.prems(2) by (cases p) simp_all
  with step dw show ?case using Cons.IH by simp
qed

lemma cs_rel_observers:
  assumes r: "cs_rel c xs"
  shows "cs_empty c = naive_empty xs \<and> all_true c = naive_all_true xs"
proof -
  have e: "cs_empty c = naive_empty xs"
    using cs_rel_size [OF r] by (auto simp: cs_empty_def naive_empty_def unat_eq_zero)
  have a: "all_true c = naive_all_true xs"
  proof (cases "list_all (\<lambda>b. b) xs")
    case True
    with cs_rel_all [OF r] show ?thesis by (simp add: all_true_def naive_all_true_def)
  next
    case False
    with first_false_not_NO_FALSE [OF r] show ?thesis
      by (simp add: all_true_def naive_all_true_def)
  qed
  from e a show ?thesis by simp
qed

lemma cs_run_pushes:
  "m_stack_size (cs_run (replicate n (PushBack True)) c) = m_stack_size c + of_nat n"
  by (induction n arbitrary: c) (simp_all add: push_back_fields)

lemma naive_run_pushes:
  "naive_run (replicate n (PushBack True)) xs = xs @ replicate n True"
  by (induction n arbitrary: xs) (simp_all add: replicate_app_Cons_same)

lemma admissible_pushes: "admissible (replicate n (PushBack f)) xs"
  by (induction n arbitrary: xs) simp_all


lemma length_naive_step: "length (naive_step p xs) \<le> Suc (length xs)"
  by (cases p) simp_all

lemma depth_within_length:
  "length xs + length ps \<le> n \<Longrightarrow> depth_within n ps xs"
proof (induction ps arbitrary: xs)
  case Nil
  then show ?case by simp
next
  case (Cons p ps)
  have "length (naive_step p xs) + length ps \<le> n"
    using Cons.prems length_naive_step [of p xs] by simp
  then have "depth_within n ps (naive_step p xs)" by (rule Cons.IH)
  then show ?case using Cons.prems by simp
qed

lemma cs_refines_within_depth:
  assumes "admissible ps []" and "depth_within 4294967295 ps []"
  shows "cs_empty (cs_run ps cs_new) = naive_empty (naive_run ps []) \<and>
         all_true (cs_run ps cs_new) = naive_all_true (naive_run ps [])"
  using cs_rel_observers [OF cs_rel_run [OF cs_rel_new assms]] .

text \<open>
  Claim C9. For every sequence of \<open>push_back\<close>, \<open>pop_back\<close> and \<open>toggle_top\<close> that a
  script can drive (at most \<open>MAX_SCRIPT_SIZE\<close> operations, one per opcode), with
  \<open>pop_back\<close> and \<open>toggle_top\<close> applied to a non-empty stack only, the observers
  \<open>empty()\<close> and \<open>all_true()\<close> of the optimised condition stack return what they return
  on the naive stack of booleans after the same sequence.
\<close>

theorem condition_stack_refines_naive:
  assumes "admissible ps []" and "length ps \<le> MAX_SCRIPT_SIZE"
  shows "cs_empty (cs_run ps cs_new) = naive_empty (naive_run ps []) \<and>
         all_true (cs_run ps cs_new) = naive_all_true (naive_run ps [])"
proof -
  have "length ([] :: bool list) + length ps \<le> 4294967295"
    using assms(2) by (simp add: MAX_SCRIPT_SIZE_def)
  then have "depth_within 4294967295 ps []" by (rule depth_within_length)
  with assms(1) show ?thesis by (rule cs_refines_within_depth)
qed

theorem condition_stack_refines_naive_witness:
  "admissible [PushBack True, PushBack False, ToggleTop, PushBack False, PopBack] [] \<and>
   length [PushBack True, PushBack False, ToggleTop, PushBack False, PopBack] \<le> MAX_SCRIPT_SIZE \<and>
   cs_empty (cs_run [PushBack True, PushBack False, ToggleTop, PushBack False, PopBack] cs_new)
     = naive_empty (naive_run [PushBack True, PushBack False, ToggleTop, PushBack False, PopBack] []) \<and>
   all_true (cs_run [PushBack True, PushBack False, ToggleTop, PushBack False, PopBack] cs_new)
     = naive_all_true (naive_run [PushBack True, PushBack False, ToggleTop, PushBack False, PopBack] []) \<and>
   naive_run [PushBack True, PushBack False, ToggleTop, PushBack False, PopBack] [] = [True, True]"
proof -
  have a: "admissible [PushBack True, PushBack False, ToggleTop, PushBack False, PopBack] []"
    by simp
  have d: "length [PushBack True, PushBack False, ToggleTop, PushBack False, PopBack]
             \<le> MAX_SCRIPT_SIZE"
    by (simp add: MAX_SCRIPT_SIZE_def)
  show ?thesis
    using condition_stack_refines_naive [OF a d] a d by simp
qed

text \<open>
  The two \<open>uint32_t\<close> fields wrap only after \<open>2^32\<close> calls of \<open>push_back\<close>, far beyond
  the \<open>MAX_SCRIPT_SIZE\<close> operations of a script: there the optimised stack would report
  \<open>empty()\<close> where a naive stack holds \<open>2^32\<close> elements.
\<close>

lemma cs_run_wraps_beyond_any_script:
  "admissible (replicate 4294967296 (PushBack True)) [] \<and>
   cs_empty (cs_run (replicate 4294967296 (PushBack True)) cs_new) \<and>
   \<not> naive_empty (naive_run (replicate 4294967296 (PushBack True)) []) \<and>
   MAX_SCRIPT_SIZE < length (replicate 4294967296 (PushBack True))"
proof -
  have "m_stack_size (cs_run (replicate 4294967296 (PushBack True)) cs_new) = 0"
    unfolding cs_run_pushes by (simp add: cs_new_def)
  then have e: "cs_empty (cs_run (replicate 4294967296 (PushBack True)) cs_new)"
    by (simp add: cs_empty_def)
  have "length (naive_run (replicate 4294967296 (PushBack True)) []) = 4294967296"
    unfolding naive_run_pushes by simp
  then have "naive_run (replicate 4294967296 (PushBack True)) [] \<noteq> []"
    by (metis length_0_conv zero_neq_numeral)
  then have n: "\<not> naive_empty (naive_run (replicate 4294967296 (PushBack True)) [])"
    by (simp add: naive_empty_def)
  have l: "MAX_SCRIPT_SIZE < length (replicate 4294967296 (PushBack True))"
    by (simp add: MAX_SCRIPT_SIZE_def)
  from e n l admissible_pushes show ?thesis by blast
qed

section \<open>The stack verdict of the verifier\<close>

text \<open>
  Claim C7. When the unlock script passed the push-only test and both evaluations
  completed without a script error, leaving the stack \<open>stack\<close>, the verification
  succeeds iff \<open>stack\<close> is non-empty, its top casts to true and its depth is exactly 1;
  an empty stack or a false top gives \<open>EVAL_FALSE\<close>, a true top with a depth above 1
  gives \<open>CLEANSTACK\<close>.
\<close>

theorem VerifyScriptAvm_verdict:
  assumes "IsPushOnly unlock"
    and "EvalScript st [] unlock = Inr (st1, stack1)"
    and "EvalScript st1 stack1 lock = Inr (st2, stack)"
  shows "((VerifyScriptAvm EvalScript st unlock lock = Inr (st2, stack)) =
            (stack \<noteq> [] \<and> CastToBool (last stack) \<and> length stack = 1)) \<and>
         ((\<exists>r. VerifyScriptAvm EvalScript st unlock lock = Inr r) =
            (stack \<noteq> [] \<and> CastToBool (last stack) \<and> length stack = 1)) \<and>
         (stack = [] \<or> \<not> CastToBool (last stack) \<longrightarrow>
            VerifyScriptAvm EvalScript st unlock lock = Inl EVAL_FALSE) \<and>
         (stack \<noteq> [] \<and> CastToBool (last stack) \<and> length stack > 1 \<longrightarrow>
            VerifyScriptAvm EvalScript st unlock lock = Inl CLEANSTACK)"
  using assms by (auto simp: VerifyScriptAvm_def)

theorem VerifyScriptAvm_verdict_witness:
  "IsPushOnly [] \<and>
   eval_OP_1 () [] [] = Inr ((), []) \<and>
   eval_OP_1 () [] [0x51] = Inr ((), [[1]]) \<and>
   VerifyScriptAvm eval_OP_1 () [] [0x51] = Inr ((), [[1]])"
proof -
  have p: "IsPushOnly []" by simp
  have e1: "eval_OP_1 () [] [] = Inr ((), [])" by (simp add: eval_OP_1_def)
  have e2: "eval_OP_1 () [] [0x51] = Inr ((), [[1]])" by (simp add: eval_OP_1_def)
  from VerifyScriptAvm_verdict
         [of "[]" eval_OP_1 "()" "()" "[]" "[0x51]" "()" "[[1]]", OF p e1 e2]
  show ?thesis using p e1 e2 by simp
qed

section \<open>Bounds of the reads of IsSigOpReturn\<close>

text \<open>
  Claim C10 says that \<open>IsSigOpReturn\<close> reads only bytes of the script, and returns
  false on the 1-byte script \<open>[OP_RETURN]\<close> without reading past its end. The code reads
  \<open>*(begin() + 1)\<close> as soon as the first byte is \<open>OP_RETURN\<close>, with no test of the size:
  on the 1-byte script this read is past the end.
\<close>

theorem IsSigOpReturn_reads_past_end:
  "IsSigOpReturn [0x6a] = Inl ReadPastEnd"
  by (simp add: IsSigOpReturn_def IsUnspendable_def OP_RETURN_def hasSigMarker_def
      and_then_def byte_is_def deref_def)


section \<open>The key and value store\<close>

lemma json_find_assign:
  "json_find k' (json_assign k v obj) = (if k' = k then Some v else json_find k' obj)"
  by (induction obj) (auto simp: json_find_def)

lemma json_find_erase:
  "json_find k' (json_erase k obj) = (if k' = k then None else json_find k' obj)"
  by (induction obj) (auto simp: json_find_def json_erase_def)

lemma json_contains_find: "json_contains k obj = (json_find k obj \<noteq> None)"
  by (simp add: json_contains_def json_find_def)

lemma json_find_Nil: "json_find k [] = None"
  by (simp add: json_find_def)

lemma json_find_single: "json_find k' [(k, v)] = (if k' = k then Some v else None)"
  by (simp add: json_find_def)

lemma json_find_ensure:
  "json_find k (ensureKeyspaceExists entity ks) =
     (if k = ks \<and> json_find ks entity = None then Some [] else json_find k entity)"
  by (simp add: ensureKeyspaceExists_def json_find_assign)

lemma json_find_modify:
  "json_find k (modify_node ks f entity) =
     (if k = ks then map_option f (json_find ks entity) else json_find k entity)"
  by (cases "json_find ks entity") (simp_all add: modify_node_def json_find_assign)

lemma kv_has_put_node:
  "kv_has (modify_node ks (json_assign kn v) (ensureKeyspaceExists entity ks)) ks' kn' =
     ((ks' = ks \<and> kn' = kn) \<or> kv_has entity ks' kn')"
  by (cases "json_find ks entity"; cases "json_find ks' entity")
     (auto simp: kv_has_def json_find_modify json_find_ensure json_contains_find
        json_find_assign json_find_Nil json_find_single)

lemma kv_has_erase_node:
  "kv_has (modify_node ks (json_erase kn) (ensureKeyspaceExists entity ks)) ks' kn' =
     (\<not> (ks' = ks \<and> kn' = kn) \<and> kv_has entity ks' kn')"
  by (cases "json_find ks entity"; cases "json_find ks' entity")
     (auto simp: kv_has_def json_find_modify json_find_ensure json_contains_find
        json_find_erase json_find_Nil)

lemma contractStatePut_fields:
  "contractState (contractStatePut ks kn v s) =
     modify_node (HexStrWith00Null ks) (json_assign (HexStrWith00Null kn) (HexStrWith00Null v))
       (ensureKeyspaceExists (contractState s) (HexStrWith00Null ks))"
  "contractStateUpdates (contractStatePut ks kn v s) =
     modify_node (HexStrWith00Null ks) (json_assign (HexStrWith00Null kn) (HexStrWith00Null v))
       (ensureKeyspaceExists (contractStateUpdates s) (HexStrWith00Null ks))"
  "contractStateDeletes (contractStatePut ks kn v s) =
     modify_node (HexStrWith00Null ks) (json_erase (HexStrWith00Null kn))
       (ensureKeyspaceExists (contractStateDeletes s) (HexStrWith00Null ks))"
  by (simp_all add: contractStatePut_def Let_def)

lemma contractStateDelete_fields:
  "contractState (contractStateDelete ks kn s) =
     modify_node (HexStrWith00Null ks) (json_erase (HexStrWith00Null kn))
       (ensureKeyspaceExists (contractState s) (HexStrWith00Null ks))"
  "contractStateUpdates (contractStateDelete ks kn s) =
     modify_node (HexStrWith00Null ks) (json_erase (HexStrWith00Null kn))
       (ensureKeyspaceExists (contractStateUpdates s) (HexStrWith00Null ks))"
  "contractStateDeletes (contractStateDelete ks kn s) =
     modify_node (HexStrWith00Null ks) (json_assign (HexStrWith00Null kn) True)
       (ensureKeyspaceExists (contractStateDeletes s) (HexStrWith00Null ks))"
  by (simp_all add: contractStateDelete_def Let_def)

lemma kv_disjoint_put: "kv_disjoint s \<Longrightarrow> kv_disjoint (contractStatePut ks kn v s)"
  unfolding kv_disjoint_def contractStatePut_fields kv_has_put_node kv_has_erase_node
  by blast

lemma kv_disjoint_delete: "kv_disjoint s \<Longrightarrow> kv_disjoint (contractStateDelete ks kn s)"
  unfolding kv_disjoint_def contractStateDelete_fields kv_has_put_node kv_has_erase_node
  by blast

lemma kv_disjoint_run: "kv_disjoint s \<Longrightarrow> kv_disjoint (kv_run ps s)"
proof (induction ps arbitrary: s)
  case Nil
  then show ?case by simp
next
  case (Cons p ps)
  have "kv_disjoint (kv_step p s)"
    using Cons.prems by (cases p) (simp_all add: kv_disjoint_put kv_disjoint_delete)
  then show ?case using Cons.IH by simp
qed

lemma json_find_cleanup_fold:
  "json_find k (fold (\<lambda>(key, val) e. if P val then json_erase key e else e) xs e) = None \<or>
   json_find k (fold (\<lambda>(key, val) e. if P val then json_erase key e else e) xs e)
     = json_find k e"
proof (induction xs arbitrary: e)
  case Nil
  then show ?case by simp
next
  case (Cons x xs)
  obtain key val where x: "x = (key, val)" by (cases x)
  show ?case
    using Cons.IH [of "if P val then json_erase key e else e"]
    by (auto simp: x json_find_erase split: if_splits)
qed

lemma json_find_cleanup_erased:
  assumes "(key, val) \<in> set xs" and "P val"
  shows "json_find key (fold (\<lambda>(key, val) e. if P val then json_erase key e else e) xs e)
           = None"
  using assms
proof (induction xs arbitrary: e)
  case Nil
  then show ?case by simp
next
  case (Cons x xs)
  obtain k v where x: "x = (k, v)" by (cases x)
  show ?case
  proof (cases "(key, val) \<in> set xs")
    case True
    then show ?thesis using Cons.IH Cons.prems(2) by (simp add: x)
  next
    case False
    with Cons.prems have kv: "k = key" "v = val" by (simp_all add: x)
    have "json_find key (json_erase key e) = None" by (simp add: json_find_erase)
    then show ?thesis
      using json_find_cleanup_fold [of key P xs "json_erase key e"] Cons.prems(2)
      by (auto simp: x kv)
  qed
qed

lemma kv_has_cleanup: "kv_has (cleanupKeyspaces entity) ks kn \<Longrightarrow> kv_has entity ks kn"
proof -
  assume a: "kv_has (cleanupKeyspaces entity) ks kn"
  then obtain node where n: "json_find ks (cleanupKeyspaces entity) = Some node"
    and c: "json_contains kn node"
    by (auto simp: kv_has_def split: option.splits)
  from n have "json_find ks entity = Some node"
    using json_find_cleanup_fold [of ks "\<lambda>val. val = []" entity entity]
    by (simp add: cleanupKeyspaces_def)
  with c show "kv_has entity ks kn" by (simp add: kv_has_def)
qed

lemma cleanupKeyspaces_no_empty:
  "json_find ks (cleanupKeyspaces entity) \<noteq> Some []"
proof
  assume a: "json_find ks (cleanupKeyspaces entity) = Some []"
  then have "json_find ks entity = Some []"
    using json_find_cleanup_fold [of ks "\<lambda>val. val = []" entity entity]
    by (auto simp: cleanupKeyspaces_def)
  then have "(ks, []) \<in> set entity" by (simp add: json_find_def map_of_SomeD)
  then have "json_find ks (cleanupKeyspaces entity) = None"
    unfolding cleanupKeyspaces_def
    by (rule json_find_cleanup_erased) simp
  with a show False by simp
qed

lemma kv_disjoint_cleanup: "kv_disjoint s \<Longrightarrow> kv_disjoint (cleanupStateAndBalances s)"
  unfolding kv_disjoint_def
  by (auto simp: cleanupStateAndBalances_def dest!: kv_has_cleanup)

lemma kv_disjoint_new: "kv_disjoint (new_ScriptStateContext ft fti nft nfti kv)"
  by (simp add: kv_disjoint_def new_ScriptStateContext_def kv_has_def json_find_Nil)

text \<open>
  Claim C6. From a fresh state context, after every sequence of \<open>OP_KV_PUT\<close> and
  \<open>OP_KV_DELETE\<close> (so at every intermediate state too), and after the cleanup pass
  that precedes the emission of \<open>kvFinal\<close>, \<open>kvUpdates\<close> and \<open>kvDeletes\<close>, no pair
  of \<open>kvDeletes\<close> is in the state or in \<open>kvUpdates\<close>. A put leaves its pair in the
  state and in the updates and not in the deletes; a delete leaves its pair in the
  deletes and in neither of the other two.
\<close>

theorem kv_deletes_disjoint:
  "kv_disjoint (kv_run ps (new_ScriptStateContext ft fti nft nfti kv)) \<and>
   kv_disjoint (cleanupStateAndBalances (kv_run ps (new_ScriptStateContext ft fti nft nfti kv))) \<and>
   (kv_disjoint s \<longrightarrow>
      kv_disjoint (contractStatePut ks kn v s) \<and>
      kv_has (contractState (contractStatePut ks kn v s))
        (HexStrWith00Null ks) (HexStrWith00Null kn) \<and>
      kv_has (contractStateUpdates (contractStatePut ks kn v s))
        (HexStrWith00Null ks) (HexStrWith00Null kn) \<and>
      \<not> kv_has (contractStateDeletes (contractStatePut ks kn v s))
        (HexStrWith00Null ks) (HexStrWith00Null kn) \<and>
      kv_disjoint (contractStateDelete ks kn s) \<and>
      \<not> kv_has (contractState (contractStateDelete ks kn s))
        (HexStrWith00Null ks) (HexStrWith00Null kn) \<and>
      \<not> kv_has (contractStateUpdates (contractStateDelete ks kn s))
        (HexStrWith00Null ks) (HexStrWith00Null kn) \<and>
      kv_has (contractStateDeletes (contractStateDelete ks kn s))
        (HexStrWith00Null ks) (HexStrWith00Null kn))"
proof -
  have run: "kv_disjoint (kv_run ps (new_ScriptStateContext ft fti nft nfti kv))"
    by (rule kv_disjoint_run [OF kv_disjoint_new])
  have clean:
    "kv_disjoint (cleanupStateAndBalances (kv_run ps (new_ScriptStateContext ft fti nft nfti kv)))"
    by (rule kv_disjoint_cleanup [OF run])
  have ops: "kv_disjoint s \<longrightarrow>
      kv_disjoint (contractStatePut ks kn v s) \<and>
      kv_has (contractState (contractStatePut ks kn v s))
        (HexStrWith00Null ks) (HexStrWith00Null kn) \<and>
      kv_has (contractStateUpdates (contractStatePut ks kn v s))
        (HexStrWith00Null ks) (HexStrWith00Null kn) \<and>
      \<not> kv_has (contractStateDeletes (contractStatePut ks kn v s))
        (HexStrWith00Null ks) (HexStrWith00Null kn) \<and>
      kv_disjoint (contractStateDelete ks kn s) \<and>
      \<not> kv_has (contractState (contractStateDelete ks kn s))
        (HexStrWith00Null ks) (HexStrWith00Null kn) \<and>
      \<not> kv_has (contractStateUpdates (contractStateDelete ks kn s))
        (HexStrWith00Null ks) (HexStrWith00Null kn) \<and>
      kv_has (contractStateDeletes (contractStateDelete ks kn s))
        (HexStrWith00Null ks) (HexStrWith00Null kn)"
    by (simp add: kv_disjoint_put kv_disjoint_delete contractStatePut_fields
        contractStateDelete_fields kv_has_put_node kv_has_erase_node)
  from run clean ops show ?thesis by blast
qed

theorem kv_deletes_disjoint_witness:
  "kv_disjoint (new_ScriptStateContext [] [] [] [] []) \<and>
   kv_has (contractStateDeletes
       (kv_run [KvPut [0x6e, 0x73] [0x6b] [0x01], KvDelete [0x6e, 0x73] [0x6b]]
          (new_ScriptStateContext [] [] [] [] []))) ''6e73'' ''6b'' \<and>
   \<not> kv_has (contractState
       (kv_run [KvPut [0x6e, 0x73] [0x6b] [0x01], KvDelete [0x6e, 0x73] [0x6b]]
          (new_ScriptStateContext [] [] [] [] []))) ''6e73'' ''6b'' \<and>
   \<not> kv_has (contractStateUpdates
       (kv_run [KvPut [0x6e, 0x73] [0x6b] [0x01], KvDelete [0x6e, 0x73] [0x6b]]
          (new_ScriptStateContext [] [] [] [] []))) ''6e73'' ''6b'' \<and>
   kv_has (contractState
       (contractStatePut [0x6e, 0x73] [0x6b] [0x01] (new_ScriptStateContext [] [] [] [] [])))
     ''6e73'' ''6b''"
proof -
  let ?s0 = "new_ScriptStateContext [] [] [] [] []"
  let ?ps = "[KvPut [0x6e, 0x73] [0x6b] [0x01], KvDelete [0x6e, 0x73] [0x6b]]"
  have hex: "HexStrWith00Null [0x6e, 0x73] = ''6e73''" "HexStrWith00Null [0x6b] = ''6b''"
    by (simp_all add: HexStrWith00Null_def HexStr_def hex_digit_def)
  note inst = kv_deletes_disjoint [of ?ps "[]" "[]" "[]" "[]" "[]" ?s0 "[0x6e, 0x73]" "[0x6b]" "[0x01]"]
  have new: "kv_disjoint ?s0"
    by (simp add: kv_disjoint_def new_ScriptStateContext_def kv_has_def json_find_def)
  have del: "kv_has (contractStateDeletes (kv_run ?ps ?s0)) ''6e73'' ''6b''"
    by (simp add: contractStatePut_fields contractStateDelete_fields kv_has_put_node hex)
  from inst have "kv_disjoint (kv_run ?ps ?s0)" by blast
  with del have absent: "\<not> kv_has (contractState (kv_run ?ps ?s0)) ''6e73'' ''6b'' \<and>
      \<not> kv_has (contractStateUpdates (kv_run ?ps ?s0)) ''6e73'' ''6b''"
    unfolding kv_disjoint_def by blast
  from inst new have "kv_has (contractState (contractStatePut [0x6e, 0x73] [0x6b] [0x01] ?s0))
      (HexStrWith00Null [0x6e, 0x73]) (HexStrWith00Null [0x6b])"
    by blast
  then have put: "kv_has (contractState (contractStatePut [0x6e, 0x73] [0x6b] [0x01] ?s0))
      ''6e73'' ''6b''"
    by (simp only: hex)
  from new del absent put show ?thesis by blast
qed

text \<open>
  Claim C5 says that after \<open>contractStatePut(ks, kn, v)\<close> the pair is found by
  \<open>contractStateExists(ks, kn)\<close> and \<open>contractStateGet(ks, kn)\<close> returns \<open>v\<close>, also
  for the empty keyspace or key. The put stores the empty keyspace under \<open>"00"\<close>
  (\<open>HexStrWith00Null\<close>), the two readers look it up under \<open>HexStr\<close> of the empty
  string, which is the empty string: the pair that was just put is not found. The
  empty value is stored as \<open>"00"\<close> and read back as the one-byte string \<open>[0x00]\<close>.
\<close>

theorem contractStatePut_empty_keyspace_not_found:
  "contractStateExists
     (contractStatePut [] [0x6b] [0x01] (new_ScriptStateContext [] [] [] [] [])) [] [0x6b]
     = False \<and>
   contractStateGet
     (contractStatePut [] [0x6b] [0x01] (new_ScriptStateContext [] [] [] [] [])) [] [0x6b] []
     = None \<and>
   contractStateExists
     (contractStatePut [0x6e] [] [0x01] (new_ScriptStateContext [] [] [] [] [])) [0x6e] []
     = False \<and>
   contractStateGet
     (contractStatePut [0x6e] [0x6b] [] (new_ScriptStateContext [] [] [] [] [])) [0x6e] [0x6b] []
     = Some [0x00] \<and>
   contractStateGet
     (contractStatePut [0x6e] [0x6b] [0x01] (new_ScriptStateContext [] [] [] [] [])) [0x6e] [0x6b] []
     = Some [0x01]"
  by (simp add: contractStateExists_def contractStateGet_def contractStatePut_def Let_def
      new_ScriptStateContext_def ensureKeyspaceExists_def modify_node_def json_find_def
      json_contains_def json_erase_def HexStrWith00Null_def HexStr_def hex_digit_def
      HexDigit_def upt_rec)


section \<open>The withdraw opcodes\<close>

lemma GetHex_replicate_0x11:
  "GetHex (replicate 36 0x11) = replicate 72 CHR ''1''"
proof -
  have "HexStr (replicate n 0x11) = replicate (2 * n) CHR ''1''" for n
    by (induction n) (simp_all add: HexStr_def hex_digit_def)
  from this [of 36] show ?thesis by (simp add: GetHex_def)
qed

lemma CScriptNum_of_span_empty: "CScriptNum_of_span [] MAXIMUM_ITEM_SIZE = Inr (Big 0)"
  by (simp add: CScriptNum_of_span_def IsMinimallyEncoded_def MAXIMUM_ITEM_SIZE_def)

lemma bigint_deserialize_byte:
  "b AND 0x80 = 0 \<Longrightarrow> bigint_deserialize [b] = Some (int (unat b))"
  by (simp add: bigint_deserialize_def BN_mpi2bn_def be32_def read_be32_def BN_bin2bn_def)

lemma CScriptNum_of_span_3: "CScriptNum_of_span [3] MAXIMUM_ITEM_SIZE = Inr (Big 3)"
  by (simp add: CScriptNum_of_span_def IsMinimallyEncoded_def MAXIMUM_ITEM_SIZE_def
      bigint_deserialize_byte)

lemma CScriptNum_of_span_4: "CScriptNum_of_span [4] MAXIMUM_ITEM_SIZE = Inr (Big 4)"
  by (simp add: CScriptNum_of_span_def IsMinimallyEncoded_def MAXIMUM_ITEM_SIZE_def
      bigint_deserialize_byte)

text \<open>
  Claim C2 says that \<open>OP_NFT_WITHDRAW\<close>, with \<open>outIdx\<close> below and the 36-byte
  \<open>atomref\<close> on top, succeeds when \<open>outIdx\<close> is a valid output index and the contract
  holds the token. The case of the opcode tests the size of \<open>vch1\<close>, the element below
  the top (the output index), against 36, and reads the index from the same element:
  with the output index 0 (the empty element), an output in the transaction and the
  token in \<open>nft\<close>, the opcode fails with \<open>INVALID_ATOMICAL_REF_SIZE\<close>.
\<close>

theorem op_NFT_WITHDRAW_rejects_valid_withdraw:
  "op_NFT_WITHDRAW
     (Some \<lparr>m_tx = \<lparr>nVersion = 2, vin = [],
                    vout = [\<lparr>nValue = 100, scriptPubKey = []\<rparr>], nLockTime = 0\<rparr>,
            m_fullScript = [], m_pubKey = []\<rparr>)
     [[], replicate 36 0x11]
     (new_ScriptStateContext [] [] [(GetHex (replicate 36 0x11), True)] [] [])
   = Inl (ScriptFailure INVALID_ATOMICAL_REF_SIZE)"
  by (simp add: op_NFT_WITHDRAW_def stacktop_def)

text \<open>
  Claim C4 says that every successful \<open>OP_FT_WITHDRAW\<close> records its withdraw intent
  \<open>(id, outIdx) -> amount\<close>, so that every successful withdrawal is in the emitted
  \<open>ftWithdraws\<close>. The withdraw map is written with \<open>std::map::insert\<close>, which leaves
  an entry that exists as it is. With \<open>ft = {id: 10}\<close> and one output of value 100,
  a withdrawal of 3 and then one of 4 to output 0 both succeed and leave the balance 3,
  and the withdraw map holds 3 for \<open>(id, 0)\<close>: the second withdrawal is not recorded.
\<close>

theorem op_FT_WITHDRAW_second_withdraw_not_recorded:
  "(case op_FT_WITHDRAW
           (Some \<lparr>m_tx = \<lparr>nVersion = 2, vin = [],
                          vout = [\<lparr>nValue = 100, scriptPubKey = []\<rparr>], nLockTime = 0\<rparr>,
                  m_fullScript = [], m_pubKey = []\<rparr>)
           [[3], [], replicate 36 0x11]
           (new_ScriptStateContext [(GetHex (replicate 36 0x11), 10)] [] [] [] []) of
      Inl e \<Rightarrow> False
    | Inr (stack1, s1) \<Rightarrow>
        stack1 = [] \<and>
        json_find (GetHex (replicate 36 0x11)) (ftState s1) = Some 7 \<and>
        (case op_FT_WITHDRAW
                (Some \<lparr>m_tx = \<lparr>nVersion = 2, vin = [],
                               vout = [\<lparr>nValue = 100, scriptPubKey = []\<rparr>], nLockTime = 0\<rparr>,
                       m_fullScript = [], m_pubKey = []\<rparr>)
                [[4], [], replicate 36 0x11] s1 of
           Inl e \<Rightarrow> False
         | Inr (stack2, s2) \<Rightarrow>
             stack2 = [] \<and>
             json_find (GetHex (replicate 36 0x11)) (ftState s2) = Some 3 \<and>
             json_find (GetHex (replicate 36 0x11)) (ftBalancesUpdates s2) = Some 3 \<and>
             (case ftWithdrawMap s2 (replicate 36 0x11) of
                None \<Rightarrow> False
              | Some outputs \<Rightarrow> outputs 0 = Some 3 \<and> dom outputs = {0})))"
  by (simp add: op_FT_WITHDRAW_def stacktop_def popstack_def CScriptNum_of_span_empty
      CScriptNum_of_span_3 CScriptNum_of_span_4 getint_def contractWithdrawFt_def Let_def
      new_ScriptStateContext_def json_find_def json_erase_def map_insert_def
      GetHex_replicate_0x11)


section \<open>Authorization\<close>














section \<open>Round trip of script numbers\<close>

subsection \<open>Bits of the constants\<close>

lemma bit_int_0x80: "bit (0x80 :: int) n = (n = 7)"
proof -
  have e: "(0x80 :: int) = 2 ^ 7" by simp
  have "bit ((2 :: int) ^ 7) n = (n = 7)"
    by (simp only: bit_exp_iff) auto
  then show ?thesis by (simp only: e)
qed

lemma bit_int_0x7f: "bit (0x7f :: int) n = (n < 7)"
proof -
  have e: "(0x7f :: int) = mask 7" by (simp add: mask_eq_exp_minus_1)
  have "bit (mask 7 :: int) n = (n < 7)"
    by (simp only: bit_mask_iff) auto
  then show ?thesis by (simp only: e)
qed

lemma bit_int_0xff: "bit (0xff :: int) n = (n < 8)"
proof -
  have e: "(0xff :: int) = mask 8" by (simp add: mask_eq_exp_minus_1)
  have "bit (mask 8 :: int) n = (n < 8)"
    by (simp only: bit_mask_iff) auto
  then show ?thesis by (simp only: e)
qed

lemmas bit_consts = bit_int_0x80 bit_int_0x7f bit_int_0xff

lemma msb_test: "((b :: byte) AND 0x80 \<noteq> 0) = bit b 7"
proof
  assume "b AND 0x80 \<noteq> 0"
  then obtain n where "bit (b AND 0x80) n" by (auto simp: bit_eq_iff)
  then show "bit b 7" by (auto simp: bit_and_iff bit_consts)
next
  assume "bit b 7"
  then have "bit (b AND 0x80) 7" by (simp add: bit_and_iff bit_consts)
  then show "b AND 0x80 \<noteq> 0" by auto
qed



lemma low_bits_msb: "\<not> bit ((b :: byte) AND 0x7f) 7"
  by (simp add: bit_and_iff bit_consts)

lemma low_bits_id: "\<not> bit (b :: byte) 7 \<Longrightarrow> b AND 0x7f = b"
  by (rule bit_word_eqI) (auto simp: bit_and_iff bit_consts less_Suc_eq numeral_eq_Suc)

lemma zero_msb: "\<not> bit (0 :: byte) 7"
  by simp

subsection \<open>Little-endian digits\<close>

declare le_bytes.simps [simp del]
declare serialize_loop.simps [simp del]

lemma le_bytes_0: "le_bytes 0 = []"
  by (subst le_bytes.simps) simp

lemma le_bytes_pos: "0 < n \<Longrightarrow> le_bytes n = of_nat (n mod 256) # le_bytes (n div 256)"
  by (subst le_bytes.simps) simp

lemma le_bytes_Nil_iff: "le_bytes n = [] \<longleftrightarrow> n = 0"
  by (cases "n = 0") (simp_all add: le_bytes_0 le_bytes_pos)

lemma unat_byte_of_nat: "unat (of_nat k :: byte) = k mod 256"
  by (simp add: unat_of_nat)

lemma le_val_Nil: "le_val [] = 0"
  by (simp add: le_val_def)

lemma le_val_Cons: "le_val (b # bs) = unat b + 256 * le_val bs"
  by (simp add: le_val_def)

lemma le_val_append: "le_val (xs @ ys) = le_val xs + 256 ^ length xs * le_val ys"
  by (induction xs) (simp_all add: le_val_Nil le_val_Cons algebra_simps)



subsection \<open>The MPI format\<close>

lemma be32_value:
  assumes "l < 4294967296"
  shows "16777216 * (l div 16777216 mod 256) + 65536 * (l div 65536 mod 256)
         + 256 * (l div 256 mod 256) + l mod 256 = (l::nat)"
proof -
  define q1 where "q1 = l div 256"
  define q2 where "q2 = q1 div 256"
  define q3 where "q3 = q2 div 256"
  have e2: "l div 65536 = q2" by (simp add: q1_def q2_def div_mult2_eq)
  have e3: "l div 16777216 = q3" by (simp add: q1_def q2_def q3_def div_mult2_eq)
  have "q3 < 256" using assms unfolding e3 [symmetric] by simp
  then have m3: "q3 mod 256 = q3" by simp
  have d1: "l = l mod 256 + 256 * q1" by (simp add: q1_def)
  have d2: "q1 = q1 mod 256 + 256 * q2" by (simp add: q2_def)
  have d3: "q2 = q2 mod 256 + 256 * q3" by (simp add: q3_def)
  show ?thesis
    unfolding e2 e3 m3 q1_def [symmetric]
    using d1 d2 d3 by linarith
qed

lemma read_be32_be32:
  assumes "l < 4294967296"
  shows "read_be32 (be32 l @ xs) = l"
proof -
  have "l div 16777216 < 256" using assms by simp
  then have "l div 16777216 mod 256 = l div 16777216" by simp
  with be32_value [OF assms] show ?thesis
    by (simp add: read_be32_def be32_def unat_byte_of_nat)
qed

lemma BN_bin2bn_rev: "BN_bin2bn (rev s) = le_val s"
  by (simp add: BN_bin2bn_def le_val_def foldl_conv_foldr add.commute)


subsection \<open>Serialising and reading a big number\<close>

lemma bigint_serialize_sign_magnitude:
  "bigint_serialize a = sign_magnitude (a < 0) (nat \<bar>a\<bar>)"
proof -
  define L where "L = le_bytes (nat \<bar>a\<bar>)"
  define L' where "L' = (if L \<noteq> [] \<and> last L AND 0x80 \<noteq> 0 then L @ [0] else L)"
  have mag: "BN_bn2bin a = rev L" by (simp add: BN_bn2bin_def L_def)
  have body: "(if rev L \<noteq> [] \<and> hd (rev L) AND 0x80 \<noteq> 0 then 0 # rev L else rev L) = rev L'"
    by (simp add: L'_def hd_rev)
  have ser: "bigint_serialize a =
               rev (if a < 0 then (hd (rev L') OR 0x80) # tl (rev L') else rev L')"
    unfolding bigint_serialize_def BN_bn2mpi_def Let_def mag body
    by (simp add: be32_def)
  have sm: "sign_magnitude negative (nat \<bar>a\<bar>) =
              (if negative then butlast L' @ [last L' OR 0x80] else L')" for negative
    unfolding sign_magnitude_def Let_def L'_def L_def by (rule refl)
  show ?thesis
  proof (cases "a < 0")
    case True
    then have "nat \<bar>a\<bar> \<noteq> 0" by simp
    then have "L \<noteq> []" by (simp add: L_def le_bytes_Nil_iff)
    then have "L' \<noteq> []" by (simp add: L'_def)
    then have "rev ((hd (rev L') OR 0x80) # tl (rev L')) = butlast L' @ [last L' OR 0x80]"
      by (cases L' rule: rev_cases) simp_all
    moreover have "bigint_serialize a = rev ((hd (rev L') OR 0x80) # tl (rev L'))"
      using True by (simp only: ser if_True)
    moreover have "sign_magnitude (a < 0) (nat \<bar>a\<bar>) = butlast L' @ [last L' OR 0x80]"
      using True by (simp only: sm if_True)
    ultimately show ?thesis by simp
  next
    case False
    have "bigint_serialize a = L'"
      using False by (simp only: ser if_False rev_rev_ident)
    moreover have "sign_magnitude (a < 0) (nat \<bar>a\<bar>) = L'"
      using False by (simp only: sm if_False)
    ultimately show ?thesis by simp
  qed
qed


lemma BN_mpi2bn_body:
  assumes "s \<noteq> []" and "length s < 4294967296"
  shows "bigint_deserialize s =
           (if bit (last s) 7 then Some (- int (le_val (butlast s @ [last s AND 0x7f])))
            else Some (int (le_val s)))"
proof -
  have len: "read_be32 (be32 (length s) @ rev s) = length s"
    using assms(2) by (rule read_be32_be32)
  have l4: "length (be32 (length s)) = 4" by (simp add: be32_def)
  have hd: "hd (rev s) = last s" using assms(1) by (simp add: hd_rev)
  have tl: "tl (rev s) = rev (butlast s)"
    using assms(1) by (cases s rule: rev_cases) simp_all
  have cut: "BN_bin2bn ((last s AND 0x7f) # rev (butlast s))
               = le_val (butlast s @ [last s AND 0x7f])"
    using BN_bin2bn_rev [of "butlast s @ [last s AND 0x7f]"] by simp
  have d4: "drop 4 (be32 (length s) @ rev s) = rev s" using l4 by simp
  have lt: "\<not> length (be32 (length s) @ rev s) < 4" using l4 by simp
  have eq: "length s + 4 = length (be32 (length s) @ rev s)" using l4 by simp
  show ?thesis
    unfolding bigint_deserialize_def BN_mpi2bn_def Let_def len d4
    using assms(1) lt eq
    by (simp only: if_False hd tl msb_test cut BN_bin2bn_rev not_False_eq_True
        length_0_conv if_True simp_thms split: if_splits)
qed



subsection \<open>The loop of avm::serialize writes the sign-magnitude bytes\<close>

lemma ff_mask64: "(0xff :: 64 word) = mask 8"
  by (simp add: mask_eq_exp_minus_1)

lemma x80_exp64: "(0x80 :: 64 word) = 2 ^ 7"
  by simp

lemma of_nat_mod256: "(of_nat (n mod 256) :: byte) = of_nat n"
  unfolding word_of_nat_eq_iff by (simp add: take_bit_eq_mod)

lemma ucast_low_byte: "(ucast (a AND 0xff :: 64 word) :: byte) = of_nat (unat a mod 256)"
proof -
  have "(ucast (a AND mask 8 :: 64 word) :: byte) = ucast a"
    by (rule bit_word_eqI) (simp add: bit_ucast_iff bit_and_iff bit_mask_iff)
  moreover have "(of_nat (unat a mod 256) :: byte) = ucast a"
    using of_nat_mod256 [of "unat a"] by (simp only: of_nat_unat)
  ultimately show ?thesis by (simp only: ff_mask64)
qed

lemma unat_drop8: "unat (drop_bit 8 (a :: 64 word)) = unat a div 256"
  using unat_drop_bit_eq [of 8 a] drop_bit_eq_div [of 8 "unat a"] by simp

lemma drop8_zero_iff: "(drop_bit 8 (a :: 64 word) = 0) = (unat a div 256 = 0)"
  using unat_drop8 [of a] by (simp add: unat_eq_zero [symmetric] del: unat_eq_zero)

lemma low_msb64: "((a AND 0xff) AND 0x80 \<noteq> (0 :: 64 word)) = bit (ucast (a AND 0xff :: 64 word) :: byte) 7"
proof -
  have "((a AND mask 8) AND 2 ^ 7 \<noteq> (0 :: 64 word)) = bit (a AND mask 8) 7"
    by (simp only: and_exp_eq_0_iff_not_bit simp_thms)
  moreover have "bit (ucast (a AND mask 8 :: 64 word) :: byte) 7 = bit (a AND mask 8) 7"
    by (simp add: bit_ucast_iff)
  ultimately show ?thesis by (simp only: ff_mask64 x80_exp64)
qed

lemma ucast_or_msb: "(ucast ((a AND 0xff) OR 0x80 :: 64 word) :: byte) = ucast (a AND 0xff) OR 0x80"
proof -
  have "(ucast ((a AND mask 8) OR 2 ^ 7 :: 64 word) :: byte) = ucast (a AND mask 8) OR 2 ^ 7"
    by (rule bit_word_eqI) (auto simp add: bit_ucast_iff bit_or_iff bit_and_iff bit_mask_iff bit_exp_iff)
  moreover have "(0x80 :: byte) = 2 ^ 7" by simp
  ultimately show ?thesis by (simp only: ff_mask64 x80_exp64)
qed


lemma sign_magnitude_step:
  assumes "0 < m div 256"
  shows "sign_magnitude negative m = of_nat (m mod 256) # sign_magnitude negative (m div 256)"
proof -
  define b where "b = (of_nat (m mod 256) :: byte)"
  define L1 where "L1 = le_bytes (m div 256)"
  define L1' where "L1' = (if L1 \<noteq> [] \<and> last L1 AND 0x80 \<noteq> 0 then L1 @ [0] else L1)"
  have m: "0 < m" using assms by (cases "m = 0") simp_all
  have L: "le_bytes m = b # L1" using m by (simp add: le_bytes_pos b_def L1_def)
  have ne: "L1 \<noteq> []" using assms by (simp add: L1_def le_bytes_Nil_iff)
  have ne': "L1' \<noteq> []" using ne by (simp add: L1'_def)
  have sm1: "sign_magnitude negative (m div 256)
               = (if negative then butlast L1' @ [last L1' OR 0x80] else L1')"
    unfolding sign_magnitude_def Let_def L1'_def L1_def by (rule refl)
  have L': "(if b # L1 \<noteq> [] \<and> last (b # L1) AND 0x80 \<noteq> 0 then (b # L1) @ [0] else b # L1)
              = b # L1'"
    using ne by (simp add: L1'_def)
  have sm: "sign_magnitude negative m
              = (if negative then butlast (b # L1') @ [last (b # L1') OR 0x80] else b # L1')"
    unfolding sign_magnitude_def Let_def L L' by (rule refl)
  show ?thesis
    unfolding sm sm1 b_def [symmetric] using ne' by simp
qed

lemma sign_magnitude_single:
  assumes "0 < m" and "m div 256 = 0"
  shows "sign_magnitude negative m =
           (if bit (of_nat (m mod 256) :: byte) 7
            then [of_nat (m mod 256), if negative then 0x80 else 0]
            else [if negative then of_nat (m mod 256) OR 0x80 else of_nat (m mod 256)])"
proof -
  define b where "b = (of_nat (m mod 256) :: byte)"
  have "le_bytes (m div 256) = []" using assms(2) by (simp add: le_bytes_0)
  then have L: "le_bytes m = [b]" using assms(1) by (simp add: le_bytes_pos b_def)
  show ?thesis
    unfolding sign_magnitude_def Let_def L b_def [symmetric]
    by (simp add: msb_test)
qed

lemma serialize_loop_sign_magnitude:
  "a \<noteq> 0 \<Longrightarrow> serialize_loop negative a = sign_magnitude negative (unat a)"
proof (induction negative a rule: serialize_loop.induct)
  case (1 negative a)
  have pos: "0 < unat a" using "1.prems" by (simp add: unat_gt_0)
  show ?case
  proof (cases "drop_bit 8 a = 0")
    case True
    then have d: "unat a div 256 = 0" by (simp only: drop8_zero_iff)
    have "serialize_loop negative a =
            (if bit (ucast (a AND 0xff) :: byte) 7
             then [ucast (a AND 0xff), if negative then 0x80 else 0]
             else [if negative then ucast (a AND 0xff) OR 0x80 else ucast (a AND 0xff)])"
      using "1.prems" True
      by (subst serialize_loop.simps) (simp add: Let_def low_msb64 ucast_or_msb)
    also have "\<dots> = sign_magnitude negative (unat a)"
      using sign_magnitude_single [OF pos d, of negative] by (simp only: ucast_low_byte)
    finally show ?thesis .
  next
    case False
    then have d: "0 < unat a div 256" using drop8_zero_iff [of a] by simp
    have "serialize_loop negative a = ucast (a AND 0xff) # serialize_loop negative (drop_bit 8 a)"
      using "1.prems" False by (subst serialize_loop.simps) (simp add: Let_def)
    also have "serialize_loop negative (drop_bit 8 a)
                 = sign_magnitude negative (unat (drop_bit 8 a))"
      by (rule "1.IH" [OF "1.prems" refl refl False False])
    also have "ucast (a AND 0xff) # sign_magnitude negative (unat (drop_bit 8 a))
                 = sign_magnitude negative (unat a)"
      using sign_magnitude_step [OF d, of negative] by (simp only: ucast_low_byte unat_drop8)
    finally show ?thesis .
  qed
qed

lemma mod_shift_int:
  fixes x M :: int
  assumes "M \<le> x" and "x < 2 * M"
  shows "x mod M = x - M"
proof -
  have "(x - M) mod M = x - M" using assms by (intro mod_pos_pos_trivial) simp_all
  then show ?thesis by (simp only: minus_mod_self2)
qed

lemma sint_uint_64:
  fixes v :: "64 word"
  shows "sint v = (if uint v < 2 ^ 63 then uint v else uint v - 2 ^ 64)"
proof -
  have u0: "0 \<le> uint v" by simp
  have u1: "uint v < 2 ^ 64" using uint_bounded [of v] by simp
  have s: "sint v = (uint v + 2 ^ 63) mod 2 ^ 64 - 2 ^ 63"
    by (simp add: sint_uint signed_take_bit_eq_take_bit_shift take_bit_eq_mod)
  show ?thesis
  proof (cases "uint v < 2 ^ 63")
    case True
    have "(uint v + 2 ^ 63) mod 2 ^ 64 = uint v + 2 ^ 63"
      using True u0 by (intro mod_pos_pos_trivial) simp_all
    then show ?thesis using True s by simp
  next
    case False
    have "(uint v + 2 ^ 63) mod 2 ^ 64 = uint v + 2 ^ 63 - 2 ^ 64"
      using False u1 by (intro mod_shift_int) simp_all
    then show ?thesis using False s by simp
  qed
qed

lemma uint_neg_64:
  fixes v :: "64 word"
  assumes "v \<noteq> 0"
  shows "uint (- v) = 2 ^ 64 - uint v"
proof -
  have u0: "0 < uint v" using assms by (simp add: word_greater_zero_iff uint_0_iff less_le)
  have u1: "uint v < 2 ^ 64" using uint_bounded [of v] by simp
  have "uint (- v) = (- uint v) mod 2 ^ 64" by (simp add: uint_word_ariths)
  also have "\<dots> = (2 ^ 64 - uint v - 2 ^ 64) mod 2 ^ 64" by simp
  also have "\<dots> = (2 ^ 64 - uint v) mod 2 ^ 64" by (simp only: minus_mod_self2)
  also have "\<dots> = 2 ^ 64 - uint v" using u0 u1 by (intro mod_pos_pos_trivial) simp_all
  finally show ?thesis .
qed

lemma unat_avm_abs: "unat (avm_abs v) = nat \<bar>sint v\<bar>"
proof (cases "sint v < 0")
  case True
  then have nz: "v \<noteq> 0" by auto
  have u0: "0 \<le> uint v" by simp
  have "sint v = uint v - 2 ^ 64"
    using True u0 by (simp only: sint_uint_64 split: if_splits) simp
  then have "uint (- v) = \<bar>sint v\<bar>" using True uint_neg_64 [OF nz] by simp
  then have "unat (- v) = nat \<bar>sint v\<bar>" by (simp only: unat_eq_nat_uint)
  then show ?thesis using True by (simp only: avm_abs_def if_True)
next
  case False
  have u1: "uint v < 2 ^ 64" using uint_bounded [of v] by simp
  have "sint v = uint v"
    using False u1 by (simp only: sint_uint_64 split: if_splits) simp
  then have "unat v = nat \<bar>sint v\<bar>" by (simp only: unat_eq_nat_uint) simp
  then show ?thesis using False by (simp only: avm_abs_def if_False)
qed

lemma avm_abs_zero_iff: "(avm_abs v = 0) = (v = 0)"
  by (simp add: avm_abs_def)

lemma serialize_int64_bigint: "serialize_int64 v = bigint_serialize (sint v)"
proof (cases "v = 0")
  case True
  then show ?thesis
    by (simp add: serialize_int64_def bigint_serialize_sign_magnitude sign_magnitude_def le_bytes_0)
next
  case False
  then have "avm_abs v \<noteq> 0" using avm_abs_zero_iff [of v] by simp
  then have "serialize_loop (sint v < 0) (avm_abs v)
               = sign_magnitude (sint v < 0) (unat (avm_abs v))"
    by (rule serialize_loop_sign_magnitude)
  then have "serialize_loop (sint v < 0) (avm_abs v)
               = sign_magnitude (sint v < 0) (nat \<bar>sint v\<bar>)"
    by (simp only: unat_avm_abs)
  then show ?thesis using False
    by (simp only: serialize_int64_def bigint_serialize_sign_magnitude if_False)
qed

subsection \<open>Round trip of a big number\<close>


lemma bigint_serialize_0: "bigint_serialize 0 = []"
  by (simp add: bigint_serialize_sign_magnitude sign_magnitude_def le_bytes_0)

lemma IsMinimallyEncoded_Nil: "IsMinimallyEncoded [] cap"
  by (simp add: IsMinimallyEncoded_def)

lemma CScriptNum_of_span_Nil: "CScriptNum_of_span [] cap = Inr (Big 0)"
  by (simp add: CScriptNum_of_span_def IsMinimallyEncoded_Nil)



subsection \<open>Size of the bytes of a 64-bit integer\<close>

lemma length_le_bytes: "m < 256 ^ k \<Longrightarrow> length (le_bytes m) \<le> k"
proof (induction k arbitrary: m)
  case 0
  then show ?case by (simp add: le_bytes_0)
next
  case (Suc k)
  show ?case
  proof (cases "m = 0")
    case True
    then show ?thesis by (simp add: le_bytes_0)
  next
    case False
    have "m div 256 < 256 ^ k" using Suc.prems by (simp add: less_mult_imp_div_less mult.commute)
    then have "length (le_bytes (m div 256)) \<le> k" by (rule Suc.IH)
    then show ?thesis using False by (simp add: le_bytes_pos)
  qed
qed

lemma length_sign_magnitude: "length (sign_magnitude negative m) \<le> length (le_bytes m) + 1"
  by (simp add: sign_magnitude_def Let_def)

lemma length_getvch_Small: "length (getvch (Small v)) \<le> 9"
proof -
  have "unat (avm_abs v) < 2 ^ 64" using unsigned_less [of "avm_abs v"] by simp
  then have "nat \<bar>sint v\<bar> < 256 ^ 8" by (simp add: unat_avm_abs)
  then have "length (le_bytes (nat \<bar>sint v\<bar>)) \<le> 8" by (rule length_le_bytes)
  moreover have "getvch (Small v) = sign_magnitude (sint v < 0) (nat \<bar>sint v\<bar>)"
    by (simp add: getvch_def serialize_int64_bigint bigint_serialize_sign_magnitude)
  ultimately show ?thesis
    using length_sign_magnitude [of "sint v < 0" "nat \<bar>sint v\<bar>"] by simp
qed

subsection \<open>Bytes read from the stack are written back unchanged\<close>

lemma le_bytes_le_val: "xs \<noteq> [] \<Longrightarrow> last xs \<noteq> 0 \<Longrightarrow> le_bytes (le_val xs) = xs"
proof (induction xs)
  case Nil
  then show ?case by simp
next
  case (Cons x xs)
  show ?case
  proof (cases "xs = []")
    case True
    have x: "x \<noteq> 0" using Cons.prems True by simp
    then have pos: "0 < unat x" by (simp add: unat_gt_0)
    have lt: "unat x < 256" using unsigned_less [of x] by simp
    have "le_bytes (unat x) = [x]"
      using lt by (simp add: le_bytes_pos [OF pos] le_bytes_0)
    then show ?thesis using True by (simp add: le_val_Cons le_val_Nil)
  next
    case False
    then have ih: "le_bytes (le_val xs) = xs" using Cons.prems by (intro Cons.IH) simp_all
    have "le_val xs \<noteq> 0"
    proof
      assume "le_val xs = 0"
      then have "le_bytes (le_val xs) = []" by (simp only: le_bytes_0)
      then show False using ih False by simp
    qed
    then have pos: "0 < unat x + 256 * le_val xs" by simp
    have lt: "unat x < 256" using unsigned_less [of x] by simp
    have "le_bytes (unat x + 256 * le_val xs) = x # le_bytes (le_val xs)"
      using lt by (simp add: le_bytes_pos [OF pos])
    then show ?thesis by (simp add: le_val_Cons ih)
  qed
qed


lemma msb_restore: "bit (b :: byte) 7 \<Longrightarrow> (b AND 0x7f) OR 0x80 = b"
  by (rule bit_word_eqI) (auto simp: bit_and_iff bit_or_iff bit_consts less_Suc_eq
      numeral_eq_Suc)

lemma le_val_pos: "xs \<noteq> [] \<Longrightarrow> last xs \<noteq> 0 \<Longrightarrow> 0 < le_val xs"
proof -
  assume a: "xs \<noteq> []" "last xs \<noteq> 0"
  then have e: "le_bytes (le_val xs) = xs" by (rule le_bytes_le_val)
  show ?thesis
  proof (cases "le_val xs = 0")
    case True
    then have "le_bytes (le_val xs) = []" by (simp only: le_bytes_0)
    then show ?thesis using e a(1) by simp
  next
    case False
    then show ?thesis by simp
  qed
qed

lemma sign_magnitude_le_val:
  assumes ne: "L' \<noteq> []" and msb: "\<not> bit (last L') 7"
    and mini: "last L' \<noteq> 0 \<or> (1 < length L' \<and> bit (L' ! (length L' - 2)) 7)"
  shows "0 < le_val L' \<and>
         sign_magnitude negative (le_val L')
           = (if negative then butlast L' @ [last L' OR 0x80] else L')"
proof (cases "last L' = 0")
  case False
  have e: "le_bytes (le_val L') = L'" using ne False by (rule le_bytes_le_val)
  have p: "0 < le_val L'" using ne False by (rule le_val_pos)
  have "(if L' \<noteq> [] \<and> last L' AND 0x80 \<noteq> 0 then L' @ [0] else L') = L'"
    using msb by (simp add: msb_test)
  then have "sign_magnitude negative (le_val L')
               = (if negative then butlast L' @ [last L' OR 0x80] else L')"
    unfolding sign_magnitude_def Let_def e by simp
  then show ?thesis using p by simp
next
  case True
  define K where "K = butlast L'"
  have len: "1 < length L'" and b: "bit (L' ! (length L' - 2)) 7" using mini True by simp_all
  have L': "L' = K @ [0]"
    using ne True append_butlast_last_id [of L'] by (simp add: K_def)
  have Kne: "K \<noteq> []" using len by (auto simp: L')
  have "L' ! (length L' - 2) = last K"
    using Kne by (simp add: L' nth_append last_conv_nth)
  then have Kmsb: "bit (last K) 7" using b by simp
  then have Kz: "last K \<noteq> 0" by auto
  have e: "le_bytes (le_val K) = K" using Kne Kz by (rule le_bytes_le_val)
  have p: "0 < le_val K" using Kne Kz by (rule le_val_pos)
  have v: "le_val (K @ [0]) = le_val K" by (simp add: le_val_append le_val_Cons le_val_Nil)
  have "(if K \<noteq> [] \<and> last K AND 0x80 \<noteq> 0 then K @ [0] else K) = K @ [0]"
    using Kne Kmsb by (simp add: msb_test)
  then have "sign_magnitude negative (le_val K)
               = (if negative then butlast (K @ [0]) @ [last (K @ [0]) OR 0x80] else K @ [0])"
    unfolding sign_magnitude_def Let_def e by (simp only:)
  then show ?thesis using p unfolding L' by (simp add: v)
qed

lemma bigint_serialize_deserialize:
  assumes ne: "bs \<noteq> []" and len: "length bs \<le> MAXIMUM_ITEM_SIZE"
    and mini: "IsMinimallyEncoded bs MAXIMUM_ITEM_SIZE"
  shows "\<exists>b. bigint_deserialize bs = Some b \<and> bigint_serialize b = bs"
proof -
  define negative where "negative = bit (last bs) 7"
  define L' where "L' = butlast bs @ [last bs AND 0x7f]"
  define m where "m = le_val L'"
  have lt: "length bs < 4294967296" using len by (simp add: MAXIMUM_ITEM_SIZE_def)
  have same: "L' = bs" if "\<not> negative"
    using that ne by (simp add: L'_def negative_def low_bits_id)
  have de: "bigint_deserialize bs = Some (if negative then - int m else int m)"
    using same by (simp add: BN_mpi2bn_body [OF ne lt] negative_def [symmetric]
        L'_def [symmetric] m_def)
  have L'ne: "L' \<noteq> []" by (simp add: L'_def)
  have last: "last L' = last bs AND 0x7f" by (simp add: L'_def)
  have msb: "\<not> bit (last L') 7" by (simp add: last low_bits_msb)
  have l: "length L' = length bs" using ne by (simp add: L'_def)
  have snd: "L' ! (length L' - 2) = bs ! (length bs - 2)" if "1 < length bs"
  proof -
    define i where "i = length bs - 2"
    have i: "i < length (butlast bs)" using that by (simp add: i_def)
    then have "L' ! i = butlast bs ! i" unfolding L'_def by (simp only: nth_append if_True)
    also have "\<dots> = bs ! i" using i by (rule nth_butlast)
    finally show ?thesis by (simp only: l i_def)
  qed
  have "\<not> (last bs AND 0x7f = 0 \<and> (length bs \<le> 1 \<or> (bs ! (length bs - 2)) AND 0x80 = 0))"
    using mini ne len by (auto simp: IsMinimallyEncoded_def Let_def split: if_splits)
  then have m1: "last L' \<noteq> 0 \<or> (1 < length L' \<and> bit (L' ! (length L' - 2)) 7)"
    using last l snd msb_test [of "bs ! (length bs - 2)"] by auto
  have restore: "(if negative then butlast L' @ [last L' OR 0x80] else L') = bs"
  proof (cases negative)
    case True
    then have "(last bs AND 0x7f) OR 0x80 = last bs" by (simp add: negative_def msb_restore)
    then show ?thesis using True ne by (simp add: L'_def)
  next
    case False
    then show ?thesis using same by simp
  qed
  have pos: "0 < m"
    and sm: "sign_magnitude negative m
               = (if negative then butlast L' @ [last L' OR 0x80] else L')"
    using sign_magnitude_le_val [OF L'ne msb m1, of negative] by (simp_all add: m_def)
  define b where "b = (if negative then - int m else int m)"
  have "b < 0 \<longleftrightarrow> negative" using pos by (simp add: b_def)
  moreover have "nat \<bar>b\<bar> = m" by (simp add: b_def)
  ultimately have "bigint_serialize b = sign_magnitude negative m"
    by (simp add: bigint_serialize_sign_magnitude)
  then have "bigint_serialize b = bs" by (simp only: sm restore)
  then show ?thesis using de by (simp add: b_def)
qed

lemma CScriptNum_of_span_getvch:
  assumes "CScriptNum_of_span bs MAXIMUM_ITEM_SIZE = Inr n"
  shows "getvch n = bs"
proof (cases "bs = []")
  case True
  then have "n = Big 0" using assms by (simp add: CScriptNum_of_span_Nil)
  then show ?thesis using True by (simp add: getvch_def bigint_serialize_0)
next
  case False
  have len: "length bs \<le> MAXIMUM_ITEM_SIZE"
    using assms by (simp add: CScriptNum_of_span_def split: if_splits)
  have mini: "IsMinimallyEncoded bs MAXIMUM_ITEM_SIZE"
    using assms by (simp add: CScriptNum_of_span_def split: if_splits)
  from False len mini obtain b where de: "bigint_deserialize bs = Some b"
    and ser: "bigint_serialize b = bs"
    using bigint_serialize_deserialize by blast
  have "n = Big b" using assms False len mini de by (simp add: CScriptNum_of_span_def)
  then show ?thesis using ser by (simp add: getvch_def)
qed


subsection \<open>Beyond the size cap\<close>

lemma length_le_bytes_power: "length (le_bytes (256 ^ k)) = Suc k"
proof (induction k)
  case 0
  have "le_bytes 1 = [1]" using le_bytes_pos [of 1] by (simp add: le_bytes_0)
  then show ?case by simp
next
  case (Suc k)
  have pos: "0 < (256 :: nat) ^ Suc k" by simp
  have d: "(256 :: nat) ^ Suc k div 256 = 256 ^ k" by simp
  show ?case unfolding le_bytes_pos [OF pos] d using Suc.IH by simp
qed

lemma length_sign_magnitude_ge: "length (le_bytes m) \<le> length (sign_magnitude negative m)"
  by (cases "le_bytes m = []") (auto simp: sign_magnitude_def Let_def)

lemma getvch_beyond_cap:
  assumes "MAXIMUM_ITEM_SIZE \<le> k"
  shows "CScriptNum_of_span (getvch (Big (256 ^ k))) MAXIMUM_ITEM_SIZE
           = Inl ScriptnumOverflowException"
proof -
  have n: "nat \<bar>(256 :: int) ^ k\<bar> = 256 ^ k" by (simp add: nat_power_eq)
  have "getvch (Big (256 ^ k)) = sign_magnitude ((256 :: int) ^ k < 0) (256 ^ k)"
    by (simp only: getvch_def CScriptNum.case bigint_serialize_sign_magnitude n)
  then have "Suc k \<le> length (getvch (Big (256 ^ k)))"
    using length_sign_magnitude_ge [of "256 ^ k" "(256 :: int) ^ k < 0"]
    by (simp only: length_le_bytes_power)
  then have "MAXIMUM_ITEM_SIZE < length (getvch (Big (256 ^ k)))" using assms by simp
  then show ?thesis by (simp only: CScriptNum_of_span_def if_True)
qed

subsection \<open>The round trip of a script number\<close>




section \<open>The state commitment\<close>

subsection \<open>Little-endian bytes\<close>



lemma spec_le_bytes_example: "spec_le_bytes 4 (unat (0x04030201 :: 32 word)) = [1, 2, 3, 4]"
  by (simp add: spec_le_bytes_def upt_rec)

subsection \<open>Hex strings and decimal strings read back\<close>












subsection \<open>The walk of a std::map\<close>













subsection \<open>Filling a JSON object\<close>









subsection \<open>The serialisers\<close>
















subsection \<open>An example run with two withdrawals\<close>















end
